theory Spec2Isabelle
  imports Complex_Main
begin

section \<open>Numbers and strings of the program\<close>

text \<open>
  The program is TypeScript. Its \<^verbatim>\<open>number\<close> values are IEEE 754 doubles. Times,
  speeds and pause multipliers are modelled as \<^typ>\<open>real\<close>, indices and counts as
  \<^typ>\<open>int\<close> or \<^typ>\<open>nat\<close>. Where a property depends on how a double operation
  rounds (the duration of a token), the operation is the rounded one of the section on
  double arithmetic below. A string is the list of its UTF-16 code units, which is what
  \<^verbatim>\<open>length\<close>, \<^verbatim>\<open>at\<close>, \<^verbatim>\<open>split\<close> and \<^verbatim>\<open>trim\<close> of the source work on.
\<close>

type_synonym jsstring = "nat list"

definition js :: "string \<Rightarrow> jsstring" where
  "js s = map of_char s"

text \<open>\<^verbatim>\<open>Math.round\<close>: the nearest integer, a tie going up.\<close>

definition mathRound :: "real \<Rightarrow> real" where
  "mathRound x = of_int \<lfloor>x + 1 / 2\<rfloor>"


section \<open>Double arithmetic\<close>

text \<open>
  A finite double is the real number it stands for; a result of an operation is a
  \<open>jsnumber\<close>, which can also be an infinity or \<^verbatim>\<open>NaN\<close>. Zero carries no sign.

  \<open>roundDouble\<close> is rounding to the nearest double, ties to the even significand. A
  non-zero \<open>x\<close> lies in the binade \<open>2 ^ e \<le> \<bar>x\<bar> < 2 ^ (e + 1)\<close>, \<open>e\<close> being
  \<open>\<lfloor>log 2 \<bar>x\<bar>\<rfloor>\<close>; the doubles there are the multiples of the \<open>quantum\<close>
  \<open>2 ^ (e - 52)\<close> (53 significant bits), and below \<open>2 ^ -1022\<close> the quantum stays at
  \<open>2 ^ -1074\<close> (subnormal numbers). A magnitude that rounds to \<open>2 ^ 1024\<close> or more
  overflows to an infinity.
\<close>

datatype jsnumber = Finite real | PosInfinity | NegInfinity | NaN

definition roundHalfEven :: "real \<Rightarrow> int" where
  "roundHalfEven y =
     (let f = \<lfloor>y\<rfloor>; d = y - of_int f
      in if d < 1 / 2 then f else if d > 1 / 2 then f + 1
         else if even f then f else f + 1)"

definition quantum :: "real \<Rightarrow> real" where
  "quantum x = 2 powr of_int (max \<lfloor>log 2 \<bar>x\<bar>\<rfloor> (- 1022) - 52)"

definition roundMagnitude :: "real \<Rightarrow> real" where
  "roundMagnitude x = of_int (roundHalfEven (\<bar>x\<bar> / quantum x)) * quantum x"

definition roundDouble :: "real \<Rightarrow> jsnumber" where
  "roundDouble x =
     (if x = 0 then Finite 0
      else if roundMagnitude x \<ge> 2 powr 1024
      then (if x > 0 then PosInfinity else NegInfinity)
      else Finite (sgn x * roundMagnitude x))"

text \<open>
  Division and addition of two finite doubles, multiplication of two results, and the
  comparison \<^verbatim>\<open><=\<close>. A finite quotient, sum or product is the exact one rounded.
\<close>

fun isPositive :: "jsnumber \<Rightarrow> bool" where
  "isPositive (Finite r) = (0 < r)"
| "isPositive PosInfinity = True"
| "isPositive NegInfinity = False"
| "isPositive NaN = False"

fun isZero :: "jsnumber \<Rightarrow> bool" where
  "isZero (Finite r) = (r = 0)"
| "isZero x = False"

definition jsDivide :: "real \<Rightarrow> real \<Rightarrow> jsnumber" where
  "jsDivide a b =
     (if b = 0 then (if a = 0 then NaN else if a > 0 then PosInfinity else NegInfinity)
      else roundDouble (a / b))"

definition jsPlus :: "real \<Rightarrow> real \<Rightarrow> jsnumber" where
  "jsPlus a b = roundDouble (a + b)"

fun jsTimes :: "jsnumber \<Rightarrow> jsnumber \<Rightarrow> jsnumber" where
  "jsTimes (Finite a) (Finite b) = roundDouble (a * b)"
| "jsTimes NaN y = NaN"
| "jsTimes x NaN = NaN"
| "jsTimes x y =
     (if isZero x \<or> isZero y then NaN
      else if isPositive x = isPositive y then PosInfinity else NegInfinity)"

fun jsLessEq :: "jsnumber \<Rightarrow> jsnumber \<Rightarrow> bool" where
  "jsLessEq (Finite a) (Finite b) = (a \<le> b)"
| "jsLessEq NaN y = False"
| "jsLessEq x NaN = False"
| "jsLessEq NegInfinity y = True"
| "jsLessEq x PosInfinity = True"
| "jsLessEq x y = False"

text \<open>The exponent that fixes the quantum of \<open>x\<close>, for the proofs.\<close>

definition binade :: "real \<Rightarrow> int" where
  "binade x = max \<lfloor>log 2 \<bar>x\<bar>\<rfloor> (- 1022)"

text \<open>
  \<^verbatim>\<open>\s\<close> of a regular expression and \<^verbatim>\<open>trim\<close> agree on what white space is: tab,
  line feed (10), vertical tab, form feed, carriage return (13), space, no-break space,
  U+1680, U+2000 to U+200A, the line and paragraph separators U+2028 and U+2029, U+202F,
  U+205F, U+3000 and the byte order mark U+FEFF.
\<close>

definition isWhitespace :: "nat \<Rightarrow> bool" where
  "isWhitespace c =
     (c = 9 \<or> c = 10 \<or> c = 11 \<or> c = 12 \<or> c = 13 \<or> c = 32 \<or> c = 160 \<or> c = 5760
      \<or> (8192 \<le> c \<and> c \<le> 8202)
      \<or> c = 8232 \<or> c = 8233 \<or> c = 8239 \<or> c = 8287 \<or> c = 12288 \<or> c = 65279)"

definition trim :: "jsstring \<Rightarrow> jsstring" where
  "trim s = rev (dropWhile isWhitespace (rev (dropWhile isWhitespace s)))"

text \<open>
  \<^verbatim>\<open>s.split(/\r?\n/)\<close>: the scan keeps the piece read so far in \<open>cur\<close>; a line
  feed, or a carriage return directly followed by a line feed, ends the piece. The last
  piece is always returned, so the result is never empty and the empty string gives one
  empty line.
\<close>

fun splitLinesFrom :: "jsstring \<Rightarrow> jsstring \<Rightarrow> jsstring list" where
  "splitLinesFrom cur [] = [cur]"
| "splitLinesFrom cur [c] = (if c = 10 then [cur, []] else [cur @ [c]])"
| "splitLinesFrom cur (c # d # cs) =
     (if c = 10 then cur # splitLinesFrom [] (d # cs)
      else if c = 13 \<and> d = 10 then cur # splitLinesFrom [] cs
      else splitLinesFrom (cur @ [c]) (d # cs))"

definition splitLines :: "jsstring \<Rightarrow> jsstring list" where
  "splitLines s = splitLinesFrom [] s"

text \<open>
  \<^verbatim>\<open>s.split(/\s+/)\<close>: the pieces between maximal runs of white space. A run at the
  start or at the end of the string leaves an empty piece there; the empty string gives
  one empty piece.
\<close>

function splitWhitespace :: "jsstring \<Rightarrow> jsstring list" where
  "splitWhitespace s =
     (let frag = takeWhile (\<lambda>c. \<not> isWhitespace c) s;
          rest = dropWhile (\<lambda>c. \<not> isWhitespace c) s
      in if rest = [] then [frag] else frag # splitWhitespace (dropWhile isWhitespace rest))"
  by pat_completeness auto
termination
proof (relation "measure length")
  show "wf (measure length)" by simp
next
  fix s :: jsstring and frag rest
  assume r: "rest = dropWhile (\<lambda>c. \<not> isWhitespace c) s" and ne: "rest \<noteq> []"
  from ne obtain c cs where rc: "rest = c # cs" by (cases rest) auto
  with r have "dropWhile (\<lambda>c. \<not> isWhitespace c) s = c # cs" by simp
  then have "isWhitespace c"
    by (simp add: dropWhile_eq_Cons_conv)
  with rc have "length (dropWhile isWhitespace rest) \<le> length cs"
    by (simp add: length_dropWhile_le)
  also have "length cs < length rest" using rc by simp
  also have "length rest \<le> length s" using r by (simp add: length_dropWhile_le)
  finally show "(dropWhile isWhitespace rest, s) \<in> measure length" by simp
qed

declare splitWhitespace.simps [simp del]


section \<open>Timing engine (lib/rsvp/timing.ts)\<close>

record TimingState =
  expectedTime :: real
  lastTickTime :: real
  totalDrift :: real

text \<open>
  \<^verbatim>\<open>createTimingState\<close> reads the clock twice; the two readings are the arguments.
\<close>

definition createTimingState :: "real \<Rightarrow> real \<Rightarrow> TimingState" where
  "createTimingState now1 now2 =
     \<lparr>expectedTime = now1, lastTickTime = now2, totalDrift = 0\<rparr>"

text \<open>
  \<^verbatim>\<open>calculateNextTick(state, intervalMs)\<close> reads the clock once (\<open>now\<close>), mutates
  \<open>state\<close> and returns the delay, or \<open>-1\<close> for "run immediately". The model returns the
  delay together with the state as mutated.
\<close>

definition calculateNextTick :: "real \<Rightarrow> TimingState \<Rightarrow> real \<Rightarrow> real \<times> TimingState" where
  "calculateNextTick now state intervalMs =
     (let expectedNextTime = expectedTime state + intervalMs;
          drift = now - expectedNextTime;
          state1 = state\<lparr>totalDrift := drift, lastTickTime := now\<rparr>
      in if drift \<ge> intervalMs
         then (- 1, state1\<lparr>expectedTime := now + intervalMs\<rparr>)
         else (max 0 (intervalMs - drift), state1\<lparr>expectedTime := expectedNextTime\<rparr>))"


section \<open>Tokenizer (lib/rsvp/tokenizer.ts)\<close>

record PauseProfile =
  comma :: real
  semicolon :: real
  colon :: real
  period :: real
  exclamation :: real
  question :: real
  "paragraph" :: real

definition fastProfile :: PauseProfile where
  "fastProfile =
     \<lparr>comma = 3 / 10, semicolon = 3 / 10, colon = 3 / 10, period = 8 / 10,
      exclamation = 8 / 10, question = 8 / 10, paragraph = 15 / 10\<rparr>"

definition normalProfile :: PauseProfile where
  "normalProfile =
     \<lparr>comma = 4 / 10, semicolon = 4 / 10, colon = 4 / 10, period = 12 / 10,
      exclamation = 12 / 10, question = 12 / 10, paragraph = 2\<rparr>"

definition slowProfile :: PauseProfile where
  "slowProfile =
     \<lparr>comma = 6 / 10, semicolon = 6 / 10, colon = 6 / 10, period = 18 / 10,
      exclamation = 18 / 10, question = 18 / 10, paragraph = 3\<rparr>"

definition PAUSE_PROFILES :: "string \<rightharpoonup> PauseProfile" where
  "PAUSE_PROFILES =
     [''fast'' \<mapsto> fastProfile, ''normal'' \<mapsto> normalProfile, ''slow'' \<mapsto> slowProfile]"

record Token =
  "text" :: jsstring
  orpIndex :: nat
  pauseMultiplier :: real

definition calculateORPIndex :: "jsstring \<Rightarrow> nat" where
  "calculateORPIndex word =
     (let len = length word
      in if len \<le> 2 then 0 else if len \<le> 5 then 1 else if len \<le> 9 then 2
         else if len \<le> 13 then 3 else 4)"

text \<open>
  \<^verbatim>\<open>/\n\s*\n/.test(s)\<close>: some position holds a line feed, and the white space that
  follows it holds another one (\<^verbatim>\<open>\s*\<close> backtracks over the run, of which line feeds
  are part).
\<close>

fun paragraphBreakTest :: "jsstring \<Rightarrow> bool" where
  "paragraphBreakTest [] = False"
| "paragraphBreakTest (c # cs) =
     ((c = 10 \<and> 10 \<in> set (takeWhile isWhitespace cs)) \<or> paragraphBreakTest cs)"

text \<open>
  \<^verbatim>\<open>calculatePauseMultiplier(text, profile)\<close>. \<^verbatim>\<open>trimmed.at(-1)\<close> is the last code
  unit, and \<^verbatim>\<open>undefined\<close> (here \<open>None\<close>) for the empty string. The profile is always
  passed; the source's default is \<open>normalProfile\<close>.
\<close>

definition calculatePauseMultiplier :: "jsstring \<Rightarrow> PauseProfile \<Rightarrow> real" where
  "calculatePauseMultiplier word profile =
     (let trimmed = trim word
      in if paragraphBreakTest word then paragraph profile
         else (let lastChar = (if trimmed = [] then None else Some (last trimmed))
               in if lastChar = Some (of_char CHR ''.'') \<or> lastChar = Some (of_char CHR ''!'')
                     \<or> lastChar = Some (of_char CHR ''?'')
                  then max (max (period profile) (exclamation profile)) (question profile)
                  else if lastChar = Some (of_char CHR '','') \<or> lastChar = Some (of_char CHR '';'')
                  then comma profile
                  else if lastChar = Some (of_char CHR '':'') then colon profile
                  else 0))"

text \<open>
  The loops of \<^verbatim>\<open>tokenize\<close>, over the words of a line (index \<open>j\<close> of \<open>n\<close> words)
  and over the lines (index \<open>i\<close> of \<open>n\<close> lines). Each takes the elements still to be
  visited; \<^verbatim>\<open>tokens.push\<close> is the cons of the result. \<open>moreLines\<close> is the test
  \<^verbatim>\<open>i < lines.length - 1\<close> of the enclosing line. The source also computes
  \<^verbatim>\<open>isEndOfSentence\<close> and never reads it.
\<close>

fun wordsLoop :: "PauseProfile \<Rightarrow> bool \<Rightarrow> nat \<Rightarrow> nat \<Rightarrow> jsstring list \<Rightarrow> Token list" where
  "wordsLoop profile moreLines n j [] = []"
| "wordsLoop profile moreLines n j (word # rest) =
     (if word = [] then wordsLoop profile moreLines n (Suc j) rest
      else (let isEndOfParagraph = (int j = int n - 1 \<and> moreLines);
                pm = calculatePauseMultiplier word profile;
                pm' = (if isEndOfParagraph then max pm (paragraph profile) else pm)
            in \<lparr>text = word, orpIndex = calculateORPIndex word, pauseMultiplier = pm'\<rparr>
               # wordsLoop profile moreLines n (Suc j) rest))"

fun linesLoop :: "PauseProfile \<Rightarrow> nat \<Rightarrow> nat \<Rightarrow> jsstring list \<Rightarrow> Token list" where
  "linesLoop profile n i [] = []"
| "linesLoop profile n i (l # rest) =
     (let line = trim l
      in if line = [] then linesLoop profile n (Suc i) rest
         else (let words = splitWhitespace line
               in wordsLoop profile (int i < int n - 1) (length words) 0 words
                  @ linesLoop profile n (Suc i) rest))"

definition tokenize :: "jsstring \<Rightarrow> PauseProfile \<Rightarrow> Token list" where
  "tokenize input profile =
     (let lines = splitLines input in linesLoop profile (length lines) 0 lines)"

text \<open>
  \<^verbatim>\<open>getTokenDuration(wpm, pauseMultiplier)\<close>, for finite doubles: one division, one
  addition and one multiplication, each rounded.
\<close>

definition getTokenDuration :: "real \<Rightarrow> real \<Rightarrow> jsnumber" where
  "getTokenDuration wpm pauseMult =
     (let baseMsPerWord = jsDivide 60000 wpm
      in jsTimes baseMsPerWord (jsPlus 1 pauseMult))"


section \<open>What the specification says of the tokenizer\<close>

text \<open>
  The fragments of a text as the specification words them: the text is cut into lines,
  every line is cut at each white space character, and the empty pieces are dropped.
  \<open>splitOn\<close> cuts a list at every element that is a separator.
\<close>

fun splitOn :: "('a \<Rightarrow> bool) \<Rightarrow> 'a list \<Rightarrow> 'a list list" where
  "splitOn sep [] = [[]]"
| "splitOn sep (c # cs) =
     (if sep c then [] # splitOn sep cs
      else (case splitOn sep cs of [] \<Rightarrow> [[c]] | f # fs \<Rightarrow> (c # f) # fs))"

definition fragmentsOfLines :: "jsstring \<Rightarrow> jsstring list" where
  "fragmentsOfLines input =
     concat (map (\<lambda>l. filter (\<lambda>f. f \<noteq> []) (splitOn isWhitespace l)) (splitLines input))"

text \<open>
  The punctuation-derived pause of a word: decided by the last character of the trimmed
  word alone.
\<close>

definition punctuationPause :: "jsstring \<Rightarrow> PauseProfile \<Rightarrow> real" where
  "punctuationPause word profile =
     (let trimmed = trim word
      in if trimmed = [] then 0
         else if last trimmed \<in> {of_char CHR ''.'', of_char CHR ''!'', of_char CHR ''?''}
         then max (max (period profile) (exclamation profile)) (question profile)
         else if last trimmed \<in> {of_char CHR '','', of_char CHR '';''} then comma profile
         else if last trimmed = of_char CHR '':'' then colon profile
         else 0)"

text \<open>A profile whose paragraph pause is the largest of the pauses the tokenizer uses.\<close>

definition paragraphLargest :: "PauseProfile \<Rightarrow> bool" where
  "paragraphLargest profile =
     (0 \<le> paragraph profile \<and> comma profile \<le> paragraph profile
      \<and> colon profile \<le> paragraph profile \<and> period profile \<le> paragraph profile
      \<and> exclamation profile \<le> paragraph profile \<and> question profile \<le> paragraph profile)"

text \<open>A profile whose sentence pause exceeds its paragraph pause, for concrete evaluation.\<close>

definition longSentenceProfile :: PauseProfile where
  "longSentenceProfile =
     \<lparr>comma = 1 / 2, semicolon = 1 / 2, colon = 1 / 2, period = 3,
      exclamation = 3, question = 3, paragraph = 1\<rparr>"


section \<open>The tokenizer as one scan of the text\<close>

text \<open>
  For the proofs the tokenizer is restated as one pass over the characters. \<open>tokenOf\<close>
  is the token the inner loop pushes for a word, \<open>e\<close> being \<^verbatim>\<open>isEndOfParagraph\<close>.
  \<open>scanWords F\<close> walks over maximal runs of characters that are not white space and
  gives each run the flag \<open>F\<close> of what follows it. \<open>wordsStruct\<close> and \<open>linesStruct\<close>
  are the two loops without their counters.
\<close>

definition tokenOf :: "PauseProfile \<Rightarrow> bool \<Rightarrow> jsstring \<Rightarrow> Token" where
  "tokenOf profile e word =
     \<lparr>text = word, orpIndex = calculateORPIndex word,
      pauseMultiplier =
        (if e then max (calculatePauseMultiplier word profile) (paragraph profile)
         else calculatePauseMultiplier word profile)\<rparr>"

function scanWords :: "PauseProfile \<Rightarrow> (jsstring \<Rightarrow> bool) \<Rightarrow> jsstring \<Rightarrow> Token list" where
  "scanWords profile F [] = []"
| "scanWords profile F (c # cs) =
     (if isWhitespace c then scanWords profile F cs
      else tokenOf profile (F (dropWhile (\<lambda>c. \<not> isWhitespace c) cs))
             (c # takeWhile (\<lambda>c. \<not> isWhitespace c) cs)
           # scanWords profile F (dropWhile (\<lambda>c. \<not> isWhitespace c) cs))"
  by pat_completeness auto
termination
  by (relation "measure (\<lambda>(p, F, s). length s)") (auto simp add: length_dropWhile_le less_Suc_eq_le)

primrec wordsStruct :: "PauseProfile \<Rightarrow> bool \<Rightarrow> jsstring list \<Rightarrow> Token list" where
  "wordsStruct profile e [] = []"
| "wordsStruct profile e (word # rest) =
     (if word = [] then wordsStruct profile e rest
      else tokenOf profile (rest = [] \<and> e) word # wordsStruct profile e rest)"

primrec linesStruct :: "PauseProfile \<Rightarrow> jsstring list \<Rightarrow> Token list" where
  "linesStruct profile [] = []"
| "linesStruct profile (l # rest) =
     scanWords profile (\<lambda>r. list_all isWhitespace r \<and> rest \<noteq> []) l @ linesStruct profile rest"

definition followedByNewline :: "jsstring \<Rightarrow> bool" where
  "followedByNewline r = (10 \<in> set (takeWhile isWhitespace r))"


section \<open>Playback state of the application shell\<close>

text \<open>
  The \<^verbatim>\<open>App\<close> component keeps the playback position in React state cells. The
  handlers below are its \<^verbatim>\<open>useCallback\<close> bodies, each taking the cells before the
  call and returning them after it. \<open>loadTokens\<close> is the synchronous part of the
  \<^verbatim>\<open>initDocument\<close> effect, which stores a freshly tokenized text.
\<close>

record AppState =
  tokens :: "Token list"
  currentIndex :: int
  isPlaying :: bool
  isComplete :: bool
  wasPlayingBeforeScrub :: bool

definition loadTokens :: "Token list \<Rightarrow> AppState \<Rightarrow> AppState" where
  "loadTokens sampleTokens s =
     s\<lparr>tokens := sampleTokens, currentIndex := 0, isPlaying := False, isComplete := False\<rparr>"

definition handlePlayPause :: "AppState \<Rightarrow> AppState" where
  "handlePlayPause s =
     (if isPlaying s then s\<lparr>isPlaying := False\<rparr>
      else if \<not> isComplete s \<and> currentIndex s < int (length (tokens s))
      then s\<lparr>isPlaying := True\<rparr>
      else s)"

definition handleRestart :: "AppState \<Rightarrow> AppState" where
  "handleRestart s = s\<lparr>currentIndex := 0, isPlaying := False, isComplete := False\<rparr>"

definition handleSkip :: "int \<Rightarrow> AppState \<Rightarrow> AppState" where
  "handleSkip delta s =
     (let s1 = s\<lparr>currentIndex :=
                   max 0 (min (int (length (tokens s)) - 1) (currentIndex s + delta))\<rparr>
      in if delta < 0 \<and> isComplete s then s1\<lparr>isComplete := False\<rparr> else s1)"

definition handleScrubStart :: "AppState \<Rightarrow> AppState" where
  "handleScrubStart s = s\<lparr>wasPlayingBeforeScrub := isPlaying s, isPlaying := False\<rparr>"

definition handleScrubMove :: "int \<Rightarrow> AppState \<Rightarrow> AppState" where
  "handleScrubMove index s = s\<lparr>currentIndex := index\<rparr>"

definition handleScrubEnd :: "AppState \<Rightarrow> AppState" where
  "handleScrubEnd s = (if wasPlayingBeforeScrub s then s\<lparr>isPlaying := True\<rparr> else s)"

text \<open>
  The playback effect arms one timeout while playing; \<open>playbackTimeout\<close> is what that
  timeout does when it fires: past the last token it stops and marks the text complete,
  otherwise it advances by one token. While not playing, with no tokens, or when
  complete, no timeout is armed.
\<close>

definition playbackTimeout :: "AppState \<Rightarrow> AppState" where
  "playbackTimeout s =
     (if \<not> isPlaying s \<or> length (tokens s) = 0 \<or> isComplete s then s
      else if currentIndex s \<ge> int (length (tokens s)) - 1
      then s\<lparr>isPlaying := False, isComplete := True\<rparr>
      else s\<lparr>currentIndex := currentIndex s + 1\<rparr>)"


text \<open>A state of the shell that has played three tokens to the end, for concrete evaluation.\<close>

definition completedState :: AppState where
  "completedState =
     \<lparr>tokens = [\<lparr>text = js ''One'', orpIndex = 1, pauseMultiplier = 0\<rparr>,
                \<lparr>text = js ''two,'', orpIndex = 1, pauseMultiplier = 2 / 5\<rparr>,
                \<lparr>text = js ''three.'', orpIndex = 2, pauseMultiplier = 6 / 5\<rparr>],
      currentIndex = 2, isPlaying = False, isComplete = True,
      wasPlayingBeforeScrub = False\<rparr>"


section \<open>Session store (lib/storage/session-store.ts)\<close>

text \<open>
  The IndexedDB tables are maps from keys to records; the settings table holds at most
  the record under the key \<^verbatim>\<open>default\<close>. Of the settings only the fields the session
  store reads are kept (\<^verbatim>\<open>defaultWPM\<close>, \<^verbatim>\<open>pauseProfile\<close>); the presentation
  settings play no part here. Timestamps are milliseconds. A quotient of the source
  whose divisor can be zero (JavaScript then gives \<^verbatim>\<open>Infinity\<close> or \<^verbatim>\<open>NaN\<close>) is
  \<open>jsRatio\<close>, which is \<open>None\<close> there.
\<close>

record UserSettings =
  defaultWPM :: real
  pauseProfile :: string

record Chapter =
  chapterId :: string
  startTokenIndex :: int
  endTokenIndex :: int

record Document =
  docId :: string
  totalTokens :: int
  chapters :: "Chapter list"

record Session =
  sessionId :: string
  documentId :: string
  startedAt :: real
  endedAt :: "real option"
  durationSeconds :: int
  startWPM :: real
  endWPM :: real
  avgWPM :: real
  bestSustainedWPM60s :: real
  tokensRead :: int
  completionDeltaOverall :: "real option"
  completionDeltaChapter :: "real option"
  pauses :: nat
  rewinds :: nat
  settingsSnapshot :: UserSettings

record Database =
  documents :: "string \<rightharpoonup> Document"
  sessions :: "string \<rightharpoonup> Session"
  settings :: "UserSettings option"


definition jsRatio :: "int \<Rightarrow> int \<Rightarrow> real option" where
  "jsRatio a b = (if b = 0 then None else Some (real_of_int a / real_of_int b))"


definition fallbackSettings :: UserSettings where
  "fallbackSettings = \<lparr>defaultWPM = 300, pauseProfile = ''normal''\<rparr>"


text \<open>
  \<^verbatim>\<open>updateSessionProgress(sessionId, tokenIndex, wpm, isPause, isRewind)\<close>, with the
  clock (\<^verbatim>\<open>Date.now()\<close>) as first argument. A missing session or a missing document
  leaves the database as it is. The divisor \<open>tokensRead + 1\<close> of the average is not
  zero for a \<open>tokensRead\<close> that is a token index, that is, not negative.
\<close>

definition updateSessionProgress ::
  "real \<Rightarrow> string \<Rightarrow> int \<Rightarrow> real \<Rightarrow> bool \<Rightarrow> bool \<Rightarrow> Database \<Rightarrow> Database" where
  "updateSessionProgress now sid tokenIndex wpm isPause isRewind db =
     (case sessions db sid of
        None \<Rightarrow> db
      | Some session \<Rightarrow>
          (case documents db (documentId session) of
             None \<Rightarrow> db
           | Some doc \<Rightarrow>
               (let currentChapter =
                      find (\<lambda>ch. tokenIndex \<ge> startTokenIndex ch \<and> tokenIndex < endTokenIndex ch)
                        (chapters doc);
                    newAvgWPM =
                      (if avgWPM session > 0
                       then ((avgWPM session * real_of_int (tokensRead session)) + wpm)
                              / (real_of_int (tokensRead session) + 1)
                       else wpm)
                in db\<lparr>sessions := (sessions db)(sid \<mapsto> session
                     \<lparr>durationSeconds := \<lfloor>(now - startedAt session) / 1000\<rfloor>,
                      endWPM := wpm,
                      avgWPM := mathRound newAvgWPM,
                      tokensRead := tokenIndex,
                      completionDeltaOverall := jsRatio tokenIndex (totalTokens doc),
                      completionDeltaChapter :=
                        (case currentChapter of
                           Some ch \<Rightarrow> jsRatio (tokenIndex - startTokenIndex ch)
                                        (endTokenIndex ch - startTokenIndex ch)
                         | None \<Rightarrow> Some 0),
                      pauses := (if isPause then pauses session + 1 else pauses session),
                      rewinds := (if isRewind then rewinds session + 1 else rewinds session)\<rparr>)\<rparr>)))"

text \<open>A stored session and its document, for concrete evaluation.\<close>

definition sampleSession :: "real \<Rightarrow> int \<Rightarrow> Session" where
  "sampleSession avg n =
     \<lparr>sessionId = ''s1'', documentId = ''d1'', startedAt = 0, endedAt = None,
      durationSeconds = 0, startWPM = 300, endWPM = 300, avgWPM = avg,
      bestSustainedWPM60s = 0, tokensRead = n, completionDeltaOverall = Some 0,
      completionDeltaChapter = Some 0, pauses = 0, rewinds = 0,
      settingsSnapshot = fallbackSettings\<rparr>"

definition sampleDatabase :: "real \<Rightarrow> int \<Rightarrow> Database" where
  "sampleDatabase avg n =
     \<lparr>documents = [''d1'' \<mapsto> \<lparr>docId = ''d1'', totalTokens = 100,
                       chapters = [\<lparr>chapterId = ''c1'', startTokenIndex = 0,
                                    endTokenIndex = 100\<rparr>]\<rparr>],
      sessions = [''s1'' \<mapsto> sampleSession avg n],
      settings = None\<rparr>"



section \<open>Drift-compensated scheduler (lib/rsvp/timing.ts)\<close>

text \<open>
  \<^verbatim>\<open>DriftCompensatedScheduler\<close> with the part of the browser it talks to. The record
  holds the three private fields of the class (\<open>state\<close>, \<open>timerId\<close>, \<open>isRunning\<close>), the
  pending timers of the window that belong to this scheduler, and a log. \<open>timeouts\<close>
  maps the handle of a pending \<^verbatim>\<open>setTimeout\<close> to the \<^verbatim>\<open>tick\<close> closure it will run,
  \<open>frames\<close> the handle of a pending \<^verbatim>\<open>requestAnimationFrame\<close> to the closure
  \<^verbatim>\<open>() => { if (this.isRunning) tick(); }\<close>; a closure is given by the callback and
  the interval its \<^verbatim>\<open>start\<close> call captured. The two kinds of handle are numbered
  apart, each by its own counter, as browsers do. \<open>calls\<close> lists the callback
  invocations in the order they happen.

  A callback is client code. \<open>Plain k\<close> is a callback that leaves the scheduler alone;
  \<open>Stopping k\<close> is one that calls \<^verbatim>\<open>stop()\<close> on the scheduler while it runs.
  Callbacks that call \<^verbatim>\<open>start\<close> from inside a tick are not modelled.
\<close>

datatype Callback = Plain nat | Stopping nat

record Scheduler =
  state :: TimingState
  timerId :: "nat option"
  isRunning :: bool
  timeouts :: "nat \<rightharpoonup> (Callback \<times> real)"
  frames :: "nat \<rightharpoonup> (Callback \<times> real)"
  nextTimeoutId :: nat
  nextFrameId :: nat
  calls :: "Callback list"

text \<open>The constructor; the counters of the window start at \<open>t\<close> and \<open>f\<close>.\<close>

definition newScheduler :: "real \<Rightarrow> real \<Rightarrow> nat \<Rightarrow> nat \<Rightarrow> Scheduler" where
  "newScheduler now1 now2 t f =
     \<lparr>state = createTimingState now1 now2, timerId = None, isRunning = False,
      timeouts = Map.empty, frames = Map.empty, nextTimeoutId = t, nextFrameId = f,
      calls = []\<rparr>"

text \<open>
  \<^verbatim>\<open>stop()\<close>: \<^verbatim>\<open>clearTimeout\<close> and \<^verbatim>\<open>cancelAnimationFrame\<close> are both called with
  the stored handle; each removes the pending entry of its kind with that number, if any.
\<close>

definition stop :: "Scheduler \<Rightarrow> Scheduler" where
  "stop w =
     (let w1 = w\<lparr>isRunning := False\<rparr>
      in case timerId w1 of
           None \<Rightarrow> w1
         | Some h \<Rightarrow> w1\<lparr>timeouts := (timeouts w1)(h := None),
                         frames := (frames w1)(h := None),
                         timerId := None\<rparr>)"

fun invoke :: "Callback \<Rightarrow> Scheduler \<Rightarrow> Scheduler" where
  "invoke (Plain k) w = w\<lparr>calls := calls w @ [Plain k]\<rparr>"
| "invoke (Stopping k) w = stop (w\<lparr>calls := calls w @ [Stopping k]\<rparr>)"

text \<open>
  \<^verbatim>\<open>this.timerId = window.setTimeout(tick, delay)\<close> and
  \<^verbatim>\<open>this.timerId = window.requestAnimationFrame(...)\<close>. The delay itself is not kept:
  the window may fire a pending handle at any later moment.
\<close>

definition setTimeoutTick :: "Callback \<Rightarrow> real \<Rightarrow> Scheduler \<Rightarrow> Scheduler" where
  "setTimeoutTick callback intervalMs w =
     w\<lparr>timeouts := (timeouts w)(nextTimeoutId w \<mapsto> (callback, intervalMs)),
       timerId := Some (nextTimeoutId w),
       nextTimeoutId := Suc (nextTimeoutId w)\<rparr>"

definition requestFrameTick :: "Callback \<Rightarrow> real \<Rightarrow> Scheduler \<Rightarrow> Scheduler" where
  "requestFrameTick callback intervalMs w =
     w\<lparr>frames := (frames w)(nextFrameId w \<mapsto> (callback, intervalMs)),
       timerId := Some (nextFrameId w),
       nextFrameId := Suc (nextFrameId w)\<rparr>"

text \<open>
  The closure \<^verbatim>\<open>tick\<close> of a \<^verbatim>\<open>start(callback, intervalMs)\<close> call, and
  \<^verbatim>\<open>start\<close> itself. \<open>now\<close>, \<open>now1\<close> and \<open>now2\<close> are the clock readings of
  \<open>calculateNextTick\<close> and \<open>createTimingState\<close>.
\<close>

definition tick :: "Callback \<Rightarrow> real \<Rightarrow> real \<Rightarrow> Scheduler \<Rightarrow> Scheduler" where
  "tick callback intervalMs now w =
     (if \<not> isRunning w then w
      else (let w1 = invoke callback w;
                (delay, st) = calculateNextTick now (state w1) intervalMs;
                w2 = w1\<lparr>state := st\<rparr>
            in if delay \<ge> 0 then setTimeoutTick callback intervalMs w2
               else requestFrameTick callback intervalMs w2))"

definition start :: "Callback \<Rightarrow> real \<Rightarrow> real \<Rightarrow> real \<Rightarrow> Scheduler \<Rightarrow> Scheduler" where
  "start callback intervalMs now1 now2 w =
     (if isRunning w then w
      else (let w1 = w\<lparr>isRunning := True, state := createTimingState now1 now2\<rparr>;
                w2 = invoke callback w1
            in setTimeoutTick callback intervalMs w2))"

text \<open>
  The window fires a pending handle: the entry leaves the table and its closure runs. A
  handle that is not pending fires nothing.
\<close>

definition fireTimeout :: "nat \<Rightarrow> real \<Rightarrow> Scheduler \<Rightarrow> Scheduler" where
  "fireTimeout h now w =
     (case timeouts w h of
        None \<Rightarrow> w
      | Some (callback, intervalMs) \<Rightarrow>
          tick callback intervalMs now (w\<lparr>timeouts := (timeouts w)(h := None)\<rparr>))"

definition fireFrame :: "nat \<Rightarrow> real \<Rightarrow> Scheduler \<Rightarrow> Scheduler" where
  "fireFrame h now w =
     (case frames w h of
        None \<Rightarrow> w
      | Some (callback, intervalMs) \<Rightarrow>
          (let w1 = w\<lparr>frames := (frames w)(h := None)\<rparr>
           in if isRunning w1 then tick callback intervalMs now w1 else w1))"

text \<open>
  What can happen to a scheduler from outside, one event at a time: the client calls
  \<^verbatim>\<open>start\<close> or \<^verbatim>\<open>stop\<close>, or the window fires a handle.
\<close>

datatype Event =
    Start Callback real real real
  | Stop
  | TimeoutFires nat real
  | FrameFires nat real

fun step :: "Event \<Rightarrow> Scheduler \<Rightarrow> Scheduler" where
  "step (Start callback intervalMs now1 now2) w = start callback intervalMs now1 now2 w"
| "step Stop w = stop w"
| "step (TimeoutFires h now) w = fireTimeout h now w"
| "step (FrameFires h now) w = fireFrame h now w"

fun run :: "Event list \<Rightarrow> Scheduler \<Rightarrow> Scheduler" where
  "run [] w = w"
| "run (e # es) w = run es (step e w)"

fun isStart :: "Event \<Rightarrow> bool" where
  "isStart (Start callback intervalMs now1 now2) = True"
| "isStart e = False"

fun plainEvent :: "Event \<Rightarrow> bool" where
  "plainEvent (Start (Stopping k) intervalMs now1 now2) = False"
| "plainEvent e = True"

text \<open>
  \<open>tracked\<close>: every pending handle of the scheduler is the one stored in \<open>timerId\<close>,
  at most one is pending, none is pending while the scheduler is stopped, and the
  pending closures hold plain callbacks.
\<close>

fun isPlain :: "Callback \<Rightarrow> bool" where
  "isPlain (Plain k) = True"
| "isPlain (Stopping k) = False"

definition tracked :: "Scheduler \<Rightarrow> bool" where
  "tracked w =
     ((case timerId w of
         None \<Rightarrow> timeouts w = Map.empty \<and> frames w = Map.empty
       | Some h \<Rightarrow>
           (\<forall>k. k \<noteq> h \<longrightarrow> timeouts w k = None \<and> frames w k = None)
           \<and> (timeouts w h = None \<or> frames w h = None))
      \<and> (\<not> isRunning w \<longrightarrow> timeouts w = Map.empty \<and> frames w = Map.empty)
      \<and> (\<forall>k c i. timeouts w k = Some (c, i) \<or> frames w k = Some (c, i) \<longrightarrow> isPlain c))"

text \<open>
  Two running schedulers for concrete evaluation: started at time 0 with an interval of
  100 ms, the first fires its timeout at 130 ms (the next tick is a timeout), the second
  at 250 ms (a full interval behind, the next tick is an animation frame).
\<close>

definition runningExample :: Scheduler where
  "runningExample = run [Start (Plain 0) 100 0 0, TimeoutFires 1 130] (newScheduler 0 0 1 1)"

definition behindExample :: Scheduler where
  "behindExample = run [Start (Plain 0) 100 0 0, TimeoutFires 1 250] (newScheduler 0 0 1 1)"

text \<open>
  A client whose callback stops the scheduler: \<^verbatim>\<open>s.start(() => s.stop(), 100)\<close> on a
  fresh scheduler (\<open>stoppedInCallback\<close>), followed by \<^verbatim>\<open>s.start(cb1, 100)\<close> with a
  plain callback (\<open>restartedAfterStop\<close>).
\<close>

definition stoppedInCallback :: Scheduler where
  "stoppedInCallback = run [Start (Stopping 0) 100 0 0] (newScheduler 0 0 1 1)"

definition restartedAfterStop :: Scheduler where
  "restartedAfterStop =
     run [Start (Stopping 0) 100 0 0, Start (Plain 1) 100 10 10] (newScheduler 0 0 1 1)"


section \<open>Drift compensation of one tick\<close>

text \<open>
  C1. One call of \<open>calculateNextTick\<close> computes the drift
  \<open>now - (expectedTime + intervalMs)\<close> and records it. When the drift is at least one
  interval it returns \<open>-1\<close> (tick immediately) and resets the baseline to
  \<open>now + intervalMs\<close>; otherwise it returns the delay \<open>max 0 (intervalMs - drift)\<close> and
  moves the baseline forward by exactly one interval, to the old
  \<open>expectedTime + intervalMs\<close>.
\<close>

theorem calculateNextTick_drift:
  fixes now i :: real and s :: TimingState
  defines "drift \<equiv> now - (expectedTime s + i)"
  shows "totalDrift (snd (calculateNextTick now s i)) = drift
       \<and> (if drift \<ge> i
          then fst (calculateNextTick now s i) = - 1
             \<and> expectedTime (snd (calculateNextTick now s i)) = now + i
          else fst (calculateNextTick now s i) = max 0 (i - drift)
             \<and> expectedTime (snd (calculateNextTick now s i)) = expectedTime s + i)"
  by (simp add: calculateNextTick_def drift_def Let_def)

theorem calculateNextTick_drift_witness:
  "fst (calculateNextTick 1350 \<lparr>expectedTime = 1000, lastTickTime = 1000, totalDrift = 0\<rparr> 100) = - 1
   \<and> expectedTime (snd (calculateNextTick 1350
        \<lparr>expectedTime = 1000, lastTickTime = 1000, totalDrift = 0\<rparr> 100)) = 1450
   \<and> fst (calculateNextTick 1130 \<lparr>expectedTime = 1000, lastTickTime = 1000, totalDrift = 0\<rparr> 100) = 70
   \<and> expectedTime (snd (calculateNextTick 1130
        \<lparr>expectedTime = 1000, lastTickTime = 1000, totalDrift = 0\<rparr> 100)) = 1100"
  using calculateNextTick_drift [where now = 1350 and i = 100
      and s = "\<lparr>expectedTime = 1000, lastTickTime = 1000, totalDrift = 0\<rparr>"]
    calculateNextTick_drift [where now = 1130 and i = 100
      and s = "\<lparr>expectedTime = 1000, lastTickTime = 1000, totalDrift = 0\<rparr>"]
  by simp


section \<open>Rounding to a double\<close>

lemma roundHalfEven_bounds: "\<lfloor>y\<rfloor> \<le> roundHalfEven y \<and> roundHalfEven y \<le> \<lfloor>y\<rfloor> + 1"
  by (simp add: roundHalfEven_def Let_def)

lemma roundHalfEven_of_int [simp]: "roundHalfEven (of_int k) = k"
  by (simp add: roundHalfEven_def Let_def)

lemma roundHalfEven_mono: "x \<le> y \<Longrightarrow> roundHalfEven x \<le> roundHalfEven y"
proof -
  assume xy: "x \<le> y"
  then have fl: "\<lfloor>x\<rfloor> \<le> \<lfloor>y\<rfloor>" by (rule floor_mono)
  show ?thesis
  proof (cases "\<lfloor>x\<rfloor> = \<lfloor>y\<rfloor>")
    case True
    with xy show ?thesis
      by (auto simp add: roundHalfEven_def Let_def)
  next
    case False
    with fl have "\<lfloor>x\<rfloor> + 1 \<le> \<lfloor>y\<rfloor>" by simp
    with roundHalfEven_bounds [of x] roundHalfEven_bounds [of y] show ?thesis by linarith
  qed
qed

lemma roundHalfEven_ge: "of_int k \<le> y \<Longrightarrow> k \<le> roundHalfEven y"
  using roundHalfEven_mono [of "of_int k" y] by simp

lemma roundHalfEven_le: "y \<le> of_int k \<Longrightarrow> roundHalfEven y \<le> k"
  using roundHalfEven_mono [of y "of_int k"] by simp

lemma floor_log_bounds:
  "0 < x \<Longrightarrow> 2 powr of_int \<lfloor>log 2 x\<rfloor> \<le> x \<and> x < 2 powr (of_int \<lfloor>log 2 x\<rfloor> + 1)"
  using floor_log_eq_powr_iff [of x 2 "\<lfloor>log 2 x\<rfloor>"] by simp

lemma quantum_binade: "quantum x = 2 powr of_int (binade x - 52)"
  by (simp add: quantum_def binade_def)

lemma quantum_pos: "0 < quantum x"
  by (simp add: quantum_def)

lemma binade_mono: "0 < x \<Longrightarrow> x \<le> y \<Longrightarrow> binade x \<le> binade y"
proof -
  assume "0 < x" and "x \<le> y"
  then have "log 2 x \<le> log 2 y" by simp
  then have "\<lfloor>log 2 x\<rfloor> \<le> \<lfloor>log 2 y\<rfloor>" by (rule floor_mono)
  with \<open>0 < x\<close> \<open>x \<le> y\<close> show ?thesis by (simp add: binade_def)
qed

lemma powr_split: "(2::real) powr (of_int e + 1) = 2 ^ 53 * 2 powr of_int (e - 52)"
proof -
  have "of_int e + 1 = (53::real) + of_int (e - 52)" by simp
  then have "(2::real) powr (of_int e + 1) = 2 powr (53 + of_int (e - 52))" by (simp only:)
  also have "\<dots> = 2 powr 53 * 2 powr of_int (e - 52)" by (simp only: powr_add)
  finally show ?thesis by simp
qed

lemma powr_split0: "(2::real) powr of_int e = 2 ^ 52 * 2 powr of_int (e - 52)"
proof -
  have "(2::real) powr of_int e = 2 powr (52 + of_int (e - 52))" by simp
  also have "\<dots> = 2 powr 52 * 2 powr of_int (e - 52)" by (simp only: powr_add)
  finally show ?thesis by simp
qed

lemma roundMagnitude_nonneg: "0 \<le> roundMagnitude x"
proof -
  have "0 \<le> \<bar>x\<bar> / quantum x" using quantum_pos [of x] by simp
  then have "0 \<le> roundHalfEven (\<bar>x\<bar> / quantum x)"
    using roundHalfEven_ge [of 0] by simp
  then show ?thesis using quantum_pos [of x] by (simp add: roundMagnitude_def)
qed

lemma roundMagnitude_le:
  assumes "0 < x"
  shows "roundMagnitude x \<le> 2 powr (of_int (binade x) + 1)"
proof -
  have "x < 2 powr (of_int \<lfloor>log 2 x\<rfloor> + 1)"
    using floor_log_bounds [OF assms] by simp
  also have "\<dots> \<le> 2 powr (of_int (binade x) + 1)"
    using assms by (intro powr_mono) (simp_all add: binade_def)
  finally have "x \<le> 2 ^ 53 * quantum x"
    by (simp add: powr_split quantum_binade)
  then have "\<bar>x\<bar> / quantum x \<le> of_int (2 ^ 53)"
    using assms quantum_pos [of x] by (simp add: field_simps)
  then have "roundHalfEven (\<bar>x\<bar> / quantum x) \<le> 2 ^ 53"
    by (rule roundHalfEven_le)
  then have "of_int (roundHalfEven (\<bar>x\<bar> / quantum x)) \<le> (2 ^ 53 :: real)"
    by (metis of_int_le_iff of_int_numeral of_int_power)
  then have "roundMagnitude x \<le> 2 ^ 53 * quantum x"
    using quantum_pos [of x] by (simp add: roundMagnitude_def)
  then show ?thesis by (simp add: powr_split quantum_binade)
qed

lemma roundMagnitude_ge:
  assumes "0 < x" and "- 1022 \<le> \<lfloor>log 2 x\<rfloor>"
  shows "2 powr of_int (binade x) \<le> roundMagnitude x"
proof -
  from assms have b: "binade x = \<lfloor>log 2 x\<rfloor>" by (simp add: binade_def)
  have "2 powr of_int (binade x) \<le> x"
    using floor_log_bounds [OF assms(1)] b by simp
  then have "2 ^ 52 * quantum x \<le> x"
    by (simp add: powr_split0 [of "binade x"] quantum_binade)
  then have "of_int (2 ^ 52) \<le> \<bar>x\<bar> / quantum x"
    using assms quantum_pos [of x] by (simp add: field_simps)
  then have "2 ^ 52 \<le> roundHalfEven (\<bar>x\<bar> / quantum x)"
    by (rule roundHalfEven_ge)
  then have "(2 ^ 52 :: real) \<le> of_int (roundHalfEven (\<bar>x\<bar> / quantum x))"
    by (metis of_int_le_iff of_int_numeral of_int_power)
  then have "2 ^ 52 * quantum x \<le> roundMagnitude x"
    using quantum_pos [of x] by (simp add: roundMagnitude_def)
  then show ?thesis by (simp add: powr_split0 [of "binade x"] quantum_binade)
qed

lemma roundMagnitude_mono:
  assumes "0 < x" and "x \<le> y"
  shows "roundMagnitude x \<le> roundMagnitude y"
proof (cases "binade x = binade y")
  case True
  then have q: "quantum x = quantum y" by (simp add: quantum_binade)
  have "\<bar>x\<bar> / quantum y \<le> \<bar>y\<bar> / quantum y"
    using assms quantum_pos [of y] by (simp add: divide_right_mono)
  then have "roundHalfEven (\<bar>x\<bar> / quantum y) \<le> roundHalfEven (\<bar>y\<bar> / quantum y)"
    by (rule roundHalfEven_mono)
  then show ?thesis
    using quantum_pos [of y] by (simp add: roundMagnitude_def q)
next
  case False
  with binade_mono [OF assms] have lt: "binade x + 1 \<le> binade y" by simp
  from assms have y: "0 < y" by simp
  have "- 1022 \<le> binade x" by (simp add: binade_def)
  with lt have "- 1022 < binade y" by simp
  with y have fl: "- 1022 \<le> \<lfloor>log 2 y\<rfloor>" unfolding binade_def by simp linarith
  have "roundMagnitude x \<le> 2 powr (of_int (binade x) + 1)"
    using assms(1) by (rule roundMagnitude_le)
  also have "\<dots> \<le> 2 powr of_int (binade y)"
    using lt by (intro powr_mono) simp_all
  also have "\<dots> \<le> roundMagnitude y"
    using y fl by (rule roundMagnitude_ge)
  finally show ?thesis .
qed

lemma roundDouble_pos_cases:
  "0 < x \<Longrightarrow> roundDouble x = (if roundMagnitude x \<ge> 2 powr 1024 then PosInfinity
     else Finite (roundMagnitude x))"
  by (simp add: roundDouble_def)

lemma roundDouble_mono:
  assumes "0 \<le> x" and "x \<le> y"
  shows "jsLessEq (roundDouble x) (roundDouble y)"
proof (cases "x = 0")
  case True
  show ?thesis
  proof (cases "y = 0")
    case True
    with \<open>x = 0\<close> show ?thesis by (simp add: roundDouble_def)
  next
    case False
    with assms True have "0 < y" by simp
    with True roundMagnitude_nonneg [of y] show ?thesis
      by (simp add: roundDouble_pos_cases) (simp add: roundDouble_def)
  qed
next
  case False
  with assms have x: "0 < x" and y: "0 < y" by simp_all
  from roundMagnitude_mono [OF x assms(2)] x y show ?thesis
    by (simp add: roundDouble_pos_cases)
qed

lemma roundMagnitude_pos:
  assumes "2 powr (- 1022) \<le> x"
  shows "0 < roundMagnitude x"
proof -
  have p: "(0::real) < 2 powr (- 1022)" by simp
  have x: "0 < x" using assms p by linarith
  have "- 1022 \<le> log 2 x" using assms x by (simp add: le_log_iff)
  then have "- 1022 \<le> \<lfloor>log 2 x\<rfloor>" by (simp add: le_floor_iff)
  from roundMagnitude_ge [OF x this] have "2 powr of_int (binade x) \<le> roundMagnitude x" .
  moreover have "(0::real) < 2 powr of_int (binade x)" by simp
  ultimately show ?thesis by linarith
qed

lemma roundDouble_positive: "2 powr (- 1022) \<le> x \<Longrightarrow> isPositive (roundDouble x)"
proof -
  assume a: "2 powr (- 1022) \<le> x"
  moreover have "(0::real) < 2 powr (- 1022)" by simp
  ultimately have "0 < x" by linarith
  with roundMagnitude_pos [OF a] show ?thesis
    by (simp add: roundDouble_pos_cases)
qed

lemma jsLessEq_refl: "isPositive a \<Longrightarrow> jsLessEq a a"
  by (cases a) simp_all

lemma jsTimes_positive: "isPositive a \<Longrightarrow> isPositive b \<Longrightarrow> jsTimes a b \<noteq> NaN"
  by (cases a; cases b) (simp_all add: roundDouble_def)

lemma jsTimes_mono:
  assumes "isPositive a" and "isPositive b" and "jsLessEq a a'" and "jsLessEq b b'"
  shows "jsLessEq (jsTimes a b) (jsTimes a' b')"
proof -
  have fin: "jsLessEq (roundDouble (r * s)) (roundDouble (r' * s'))"
    if "0 < r" "0 < s" "r \<le> r'" "s \<le> s'" for r s r' s' :: real
  proof -
    from that have "0 \<le> r * s" and "r * s \<le> r' * s'"
      by (simp_all add: mult_mono)
    then show ?thesis by (rule roundDouble_mono)
  qed
  have top: "jsLessEq (roundDouble z) PosInfinity" for z
    by (simp add: roundDouble_def)
  show ?thesis
    by (insert assms fin top, (cases a; cases b; cases a'; cases b'; auto simp add: not_less))
qed

lemma roundHalfEven_near: "\<bar>y - of_int n\<bar> < 1 / 2 \<Longrightarrow> roundHalfEven y = n"
proof (cases "of_int n \<le> y")
  case True
  assume a: "\<bar>y - of_int n\<bar> < 1 / 2"
  have "of_int n \<le> y" and "y < of_int n + 1"
    using a True by linarith+
  then have "\<lfloor>y\<rfloor> = n" by (rule floor_unique)
  with a True show ?thesis by (simp add: roundHalfEven_def Let_def)
next
  case False
  assume a: "\<bar>y - of_int n\<bar> < 1 / 2"
  have "of_int (n - 1) \<le> y" and "y < of_int (n - 1) + 1"
    using a False by simp_all
  then have "\<lfloor>y\<rfloor> = n - 1" by (rule floor_unique)
  with a False show ?thesis by (simp add: roundHalfEven_def Let_def)
qed

lemma roundDouble_near:
  assumes "2 powr of_int e \<le> x" and "x < 2 powr (of_int e + 1)"
    and "- 1022 \<le> e" and "e \<le> 1023"
    and "\<bar>x / 2 powr of_int (e - 52) - of_int n\<bar> < 1 / 2"
    and "real_of_int n * 2 powr of_int (e - 52) < 2 powr 1024"
  shows "roundDouble x = Finite (of_int n * 2 powr of_int (e - 52))"
proof -
  have "(0::real) < 2 powr of_int e" by simp
  with assms(1) have x: "0 < x" by linarith
  with assms(1,2) have "\<lfloor>log 2 x\<rfloor> = e"
    by (simp add: floor_log_eq_powr_iff)
  with assms(3) x have q: "quantum x = 2 powr of_int (e - 52)"
    by (simp add: quantum_def)
  from assms(5) x have "roundHalfEven (\<bar>x\<bar> / quantum x) = n"
    unfolding q by (intro roundHalfEven_near) simp
  then have "roundMagnitude x = of_int n * 2 powr of_int (e - 52)"
    by (simp add: roundMagnitude_def q)
  with x assms(6) show ?thesis
    by (simp add: roundDouble_pos_cases)
qed

lemma roundDouble_200: "roundDouble 200 = Finite 200"
  using roundDouble_near [of 7 200 "200 * 2 ^ 45"] by (simp add: powr_minus)

lemma roundDouble_1: "roundDouble 1 = Finite 1"
  using roundDouble_near [of 0 1 "2 ^ 52"] by (simp add: powr_minus)

lemma roundDouble_2: "roundDouble 2 = Finite 2"
  using roundDouble_near [of 1 2 "2 ^ 52"] by (simp add: powr_minus)

lemma roundDouble_100: "roundDouble 100 = Finite 100"
  using roundDouble_near [of 6 100 "100 * 2 ^ 46"] by (simp add: powr_minus)

lemma roundDouble_400: "roundDouble 400 = Finite 400"
  using roundDouble_near [of 8 400 "400 * 2 ^ 44"] by (simp add: powr_minus)

lemma roundDouble_absorbs: "roundDouble (1 + 1 / 2 ^ 60) = Finite 1"
  using roundDouble_near [of 0 "1 + 1 / 2 ^ 60" "2 ^ 52"] by (simp add: powr_minus field_simps)

lemma getTokenDuration_300_0: "getTokenDuration 300 0 = Finite 200"
  by (simp add: getTokenDuration_def jsDivide_def jsPlus_def roundDouble_200 roundDouble_1)

lemma getTokenDuration_300_tiny: "getTokenDuration 300 (1 / 2 ^ 60) = Finite 200"
proof -
  have d: "jsDivide 60000 300 = Finite 200"
    by (simp add: jsDivide_def roundDouble_200)
  have p: "jsPlus 1 (1 / 2 ^ 60) = Finite 1"
    by (simp only: jsPlus_def roundDouble_absorbs)
  show ?thesis
    unfolding getTokenDuration_def Let_def d p by (simp add: roundDouble_200)
qed

lemma roundDouble_quotient_a:
  "roundDouble (60000 / (1875 / 4 - 1 / 2 ^ 44)) = Finite (128 + 1 / 2 ^ 45)"
  using roundDouble_near [of 7 "60000 / (1875 / 4 - 1 / 2 ^ 44)" "2 ^ 52 + 1"]
  by (simp add: powr_minus field_simps)

lemma roundDouble_quotient_b:
  "roundDouble (60000 / (1875 / 4 - 1 / 2 ^ 43)) = Finite (128 + 1 / 2 ^ 45)"
  using roundDouble_near [of 7 "60000 / (1875 / 4 - 1 / 2 ^ 43)" "2 ^ 52 + 1"]
  by (simp add: powr_minus field_simps)

lemma roundDouble_next_128: "roundDouble (128 + 1 / 2 ^ 45) = Finite (128 + 1 / 2 ^ 45)"
  using roundDouble_near [of 7 "128 + 1 / 2 ^ 45" "2 ^ 52 + 1"]
  by (simp add: powr_minus field_simps)

lemma quotient_in_range:
  fixes w :: real
  assumes "0 < w" and "w < 2 powr 1024"
  shows "2 powr (- 1022) \<le> 60000 / w"
proof -
  have "(2::real) powr (- 1022) * 2 powr 1024 = 2 powr (- 1022 + 1024)"
    by (simp only: powr_add)
  then have e: "(2::real) powr (- 1022) * 2 powr 1024 = 4" by simp
  have "2 powr (- 1022) * w \<le> 2 powr (- 1022) * 2 powr 1024"
    using assms by (intro mult_left_mono) simp_all
  with e have "2 powr (- 1022) * w \<le> 60000" by linarith
  with assms(1) show ?thesis by (simp add: field_simps)
qed

lemma base_positive:
  "0 < w \<Longrightarrow> w < 2 powr 1024 \<Longrightarrow> isPositive (jsDivide 60000 w)" for w :: real
  using quotient_in_range [of w] by (simp add: jsDivide_def roundDouble_positive)

lemma factor_positive: "0 \<le> m \<Longrightarrow> isPositive (jsPlus 1 m)"
proof -
  assume m: "0 \<le> m"
  have "(2::real) powr (- 1022) \<le> 2 powr 0" by (intro powr_mono) simp_all
  with m have "2 powr (- 1022) \<le> 1 + m" by simp
  then show ?thesis by (simp add: jsPlus_def roundDouble_positive)
qed

lemma getTokenDuration_300_1: "getTokenDuration 300 1 = Finite 400"
  using roundDouble_200 roundDouble_2 roundDouble_400
  by (simp add: getTokenDuration_def jsDivide_def jsPlus_def)


section \<open>Duration of a token\<close>

text \<open>
  C2 as stated fails: in double arithmetic the duration is not strictly monotone. At
  300 words per minute the pause multipliers 0 and \<open>2 ^ -60\<close> both give 200, because
  \<open>1 + 2 ^ -60\<close> rounds to 1; and at pause 0 the neighbouring speeds
  \<open>468.75 - 2 ^ -43\<close> and \<open>468.75 - 2 ^ -44\<close> both give \<open>128 + 2 ^ -45\<close>, because the
  two quotients round to the same double.
\<close>

theorem getTokenDuration_strict_counterexample:
  "(0::real) < 1 / 2 ^ 60
   \<and> getTokenDuration 300 0 = Finite 200
   \<and> getTokenDuration 300 (1 / 2 ^ 60) = Finite 200
   \<and> (1875 / 4 - 1 / 2 ^ 43 :: real) < 1875 / 4 - 1 / 2 ^ 44
   \<and> getTokenDuration (1875 / 4 - 1 / 2 ^ 43) 0 = Finite (128 + 1 / 2 ^ 45)
   \<and> getTokenDuration (1875 / 4 - 1 / 2 ^ 44) 0 = Finite (128 + 1 / 2 ^ 45)"
proof -
  have a: "getTokenDuration (1875 / 4 - 1 / 2 ^ 44) 0 = Finite (128 + 1 / 2 ^ 45)"
    using roundDouble_quotient_a roundDouble_1 roundDouble_next_128
    by (simp add: getTokenDuration_def jsDivide_def jsPlus_def)
  have b: "getTokenDuration (1875 / 4 - 1 / 2 ^ 43) 0 = Finite (128 + 1 / 2 ^ 45)"
    using roundDouble_quotient_b roundDouble_1 roundDouble_next_128
    by (simp add: getTokenDuration_def jsDivide_def jsPlus_def)
  show ?thesis
    unfolding a b getTokenDuration_300_0 getTokenDuration_300_tiny by simp
qed

text \<open>
  C2, amended. For finite doubles \<open>w > 0\<close> and \<open>m \<ge> 0\<close> the duration is the formula
  \<open>(60000 / w) * (1 + m)\<close> evaluated in double arithmetic, each of the three operations
  rounded to the nearest double; at 300 words per minute and no pause it is exactly
  200; and it is monotone without being strict: a higher speed never gives a longer
  duration, a larger multiplier never a shorter one.
\<close>

theorem getTokenDuration_contract:
  fixes w w' m m' :: real
  assumes "0 < w" and "w \<le> w'" and "w' < 2 powr 1024" and "0 \<le> m" and "m \<le> m'"
  shows "getTokenDuration w m = jsTimes (roundDouble (60000 / w)) (roundDouble (1 + m))
       \<and> getTokenDuration 300 0 = Finite 200
       \<and> jsLessEq (getTokenDuration w' m) (getTokenDuration w m)
       \<and> jsLessEq (getTokenDuration w m) (getTokenDuration w m')"
proof -
  from assms have w': "0 < w'" and w: "w < 2 powr 1024" by simp_all
  have f: "getTokenDuration w m = jsTimes (roundDouble (60000 / w)) (roundDouble (1 + m))"
    using assms(1) by (simp add: getTokenDuration_def jsDivide_def jsPlus_def)
  have "0 \<le> 60000 / w'" and "60000 / w' \<le> 60000 / w"
    using assms(1,2) w' by (simp_all add: frac_le)
  then have "jsLessEq (roundDouble (60000 / w')) (roundDouble (60000 / w))"
    by (rule roundDouble_mono)
  then have base: "jsLessEq (jsDivide 60000 w') (jsDivide 60000 w)"
    using assms(1) w' by (simp add: jsDivide_def)
  have "0 \<le> 1 + m" and "1 + m \<le> 1 + m'"
    using assms(4,5) by simp_all
  then have fac: "jsLessEq (jsPlus 1 m) (jsPlus 1 m')"
    unfolding jsPlus_def by (rule roundDouble_mono)
  have dec: "jsLessEq (getTokenDuration w' m) (getTokenDuration w m)"
    unfolding getTokenDuration_def Let_def
    using base_positive [OF w' assms(3)] factor_positive [OF assms(4)] base
      jsLessEq_refl [OF factor_positive [OF assms(4)]]
    by (rule jsTimes_mono)
  have inc: "jsLessEq (getTokenDuration w m) (getTokenDuration w m')"
    unfolding getTokenDuration_def Let_def
    using base_positive [OF assms(1) w] factor_positive [OF assms(4)]
      jsLessEq_refl [OF base_positive [OF assms(1) w]] fac
    by (rule jsTimes_mono)
  from f dec inc show ?thesis
    by (simp add: getTokenDuration_300_0)
qed

theorem getTokenDuration_contract_witness:
  "getTokenDuration 300 1 = Finite 400
   \<and> jsLessEq (getTokenDuration 600 1) (Finite 400)
   \<and> jsLessEq (Finite 400) (getTokenDuration 300 2)"
proof -
  have h: "(0::real) < 300" "(300::real) \<le> 600" "(600::real) < 2 powr 1024"
    "(0::real) \<le> 1" "(1::real) \<le> 2"
    by simp_all
  from getTokenDuration_contract [OF h]
  have dec: "jsLessEq (getTokenDuration 600 1) (getTokenDuration 300 1)"
    and inc: "jsLessEq (getTokenDuration 300 1) (getTokenDuration 300 2)"
    by blast+
  then show ?thesis
    unfolding getTokenDuration_300_1 by simp
qed


section \<open>Skipping and playing in the application shell\<close>

text \<open>
  C4. With a non-empty token list, \<open>handleSkip delta\<close> always yields a state (it has no
  error result), keeps the token list, and sets the index to \<open>old index + delta\<close>
  clamped into \<open>[0, tokenCount - 1]\<close>. The handler has no notion of scrubbing, so this
  holds in every state. When \<open>delta < 0\<close> and the machine was complete (complete flag
  set, not playing), the result is paused: complete flag cleared, still not playing.
\<close>

theorem handleSkip_clamps:
  assumes "tokens s \<noteq> []"
  shows "tokens (handleSkip delta s) = tokens s
       \<and> currentIndex (handleSkip delta s) =
           (if currentIndex s + delta < 0 then 0
            else if currentIndex s + delta > int (length (tokens s)) - 1
            then int (length (tokens s)) - 1
            else currentIndex s + delta)
       \<and> 0 \<le> currentIndex (handleSkip delta s)
       \<and> currentIndex (handleSkip delta s) \<le> int (length (tokens s)) - 1
       \<and> (delta < 0 \<and> isComplete s \<and> \<not> isPlaying s \<longrightarrow>
            \<not> isComplete (handleSkip delta s) \<and> \<not> isPlaying (handleSkip delta s))"
proof -
  from assms have "1 \<le> int (length (tokens s))"
    by (cases "tokens s") simp_all
  with assms show ?thesis
    by (auto simp add: handleSkip_def Let_def min_def max_def)
qed

theorem handleSkip_clamps_witness:
  "tokens completedState \<noteq> []
   \<and> currentIndex (handleSkip (- 1) completedState) = 1
   \<and> \<not> isComplete (handleSkip (- 1) completedState)
   \<and> \<not> isPlaying (handleSkip (- 1) completedState)
   \<and> currentIndex (handleSkip 10 completedState) = 2
   \<and> currentIndex (handleSkip (- 10) completedState) = 0"
proof -
  have ne: "tokens completedState \<noteq> []"
    by (simp add: completedState_def)
  have flags: "isComplete completedState \<and> \<not> isPlaying completedState
      \<and> currentIndex completedState = 2 \<and> int (length (tokens completedState)) = 3"
    by (simp add: completedState_def)
  show ?thesis
    using ne flags handleSkip_clamps [OF ne, of "- 1"] handleSkip_clamps [OF ne, of 10]
      handleSkip_clamps [OF ne, of "- 10"]
    by simp
qed

text \<open>
  C9. With an empty token list \<open>handleSkip\<close> leaves the index at 0, whatever the delta
  and the index before: \<open>max 0 (min (-1) (index + delta)) = 0\<close>.
\<close>

theorem handleSkip_empty:
  assumes "tokens s = []"
  shows "currentIndex (handleSkip delta s) = 0"
  using assms by (simp add: handleSkip_def Let_def)

theorem handleSkip_empty_witness:
  "tokens (loadTokens [] completedState) = []
   \<and> currentIndex (handleSkip (- 10) (loadTokens [] completedState)) = 0
   \<and> currentIndex (handleSkip 10 (handleScrubMove 7 (loadTokens [] completedState))) = 0"
proof -
  have e1: "tokens (loadTokens [] completedState) = []"
    by (simp add: loadTokens_def)
  have e2: "tokens (handleScrubMove 7 (loadTokens [] completedState)) = []"
    by (simp add: loadTokens_def handleScrubMove_def)
  show ?thesis
    using e1 handleSkip_empty [OF e1, of "- 10"] handleSkip_empty [OF e2, of 10]
    by simp
qed

text \<open>
  C7. Loading the empty token sequence yields a state at index 0 that is neither playing
  nor complete, and any number of \<open>handlePlayPause\<close> calls after it change nothing: the
  state stays as loaded, so playing never becomes true. The handler has no error result.
\<close>

theorem empty_tokens_play_noop:
  "currentIndex (loadTokens [] s) = 0
   \<and> \<not> isPlaying (loadTokens [] s)
   \<and> \<not> isComplete (loadTokens [] s)
   \<and> handlePlayPause (loadTokens [] s) = loadTokens [] s
   \<and> (handlePlayPause ^^ n) (loadTokens [] s) = loadTokens [] s"
proof -
  have step: "handlePlayPause (loadTokens [] s) = loadTokens [] s"
    by (simp add: handlePlayPause_def loadTokens_def)
  have "(handlePlayPause ^^ n) (loadTokens [] s) = loadTokens [] s"
    by (induction n) (simp_all add: step)
  then show ?thesis
    using step by (simp add: loadTokens_def)
qed

theorem empty_tokens_play_noop_witness:
  "(handlePlayPause ^^ 3) (loadTokens [] completedState) = loadTokens [] completedState
   \<and> \<not> isPlaying ((handlePlayPause ^^ 3) (loadTokens [] completedState))"
  using empty_tokens_play_noop [of completedState 3]
  by simp


section \<open>Running average of the session store\<close>


lemma updateSessionProgress_guard_example:
  "avgWPM (the (sessions (updateSessionProgress 3000 ''s1'' 16 400 False False
      (sampleDatabase 0 3)) ''s1'')) = 400"
proof -
  have "\<lfloor>(400 + 1 / 2 :: real)\<rfloor> = 400"
    by linarith
  then show ?thesis
    by (simp add: updateSessionProgress_def sampleDatabase_def sampleSession_def
        mathRound_def Let_def)
qed





section \<open>Tokenizer: the loops and the scan agree\<close>

lemma wordsLoop_struct:
  "n = j + length ws \<Longrightarrow> wordsLoop p e n j ws = wordsStruct p e ws"
proof (induction ws arbitrary: j)
  case Nil
  then show ?case by simp
next
  case (Cons w ws)
  have "(int j = int n - 1) = (ws = [])"
    using Cons.prems by auto
  with Cons show ?case
    by (simp add: tokenOf_def Let_def)
qed

lemma splitOn_unfold:
  "splitOn sep s = takeWhile (\<lambda>c. \<not> sep c) s
     # (case dropWhile (\<lambda>c. \<not> sep c) s of [] \<Rightarrow> [] | d # r \<Rightarrow> splitOn sep r)"
  by (induction s) (auto split: list.splits)

lemma scanWords_texts:
  "map text (scanWords p F s) = filter (\<lambda>f. f \<noteq> []) (splitOn isWhitespace s)"
proof (induction p F s rule: scanWords.induct)
  case (1 p F)
  then show ?case by simp
next
  case (2 p F c cs)
  show ?case
  proof (cases "isWhitespace c")
    case True
    with 2 show ?thesis by simp
  next
    case False
    define r where "r = dropWhile (\<lambda>c. \<not> isWhitespace c) cs"
    have u: "splitOn isWhitespace (c # cs) = (c # takeWhile (\<lambda>c. \<not> isWhitespace c) cs)
      # (case r of [] \<Rightarrow> [] | d # r' \<Rightarrow> splitOn isWhitespace r')"
      using False unfolding r_def by (subst splitOn_unfold) simp
    have ih: "map text (scanWords p F r) = filter (\<lambda>f. f \<noteq> []) (splitOn isWhitespace r)"
      using 2 False unfolding r_def by simp
    have sc: "scanWords p F (c # cs) = tokenOf p (F r) (c # takeWhile (\<lambda>c. \<not> isWhitespace c) cs)
      # scanWords p F r"
      using False unfolding r_def by simp
    have tl: "filter (\<lambda>f. f \<noteq> []) (case r of [] \<Rightarrow> [] | d # r' \<Rightarrow> splitOn isWhitespace r')
      = filter (\<lambda>f. f \<noteq> []) (splitOn isWhitespace r)"
    proof (cases r)
      case Nil
      then show ?thesis by simp
    next
      case (Cons d r')
      then have "isWhitespace d"
        unfolding r_def by (simp add: dropWhile_eq_Cons_conv)
      with Cons show ?thesis by simp
    qed
    show ?thesis
      unfolding u sc using ih tl by (simp add: tokenOf_def)
  qed
qed


lemma scanWords_leading:
  "list_all isWhitespace a \<Longrightarrow> scanWords p F (a @ x) = scanWords p F x"
  by (induction a) simp_all

lemma takeWhile_nonws_ws: "list_all isWhitespace b \<Longrightarrow> takeWhile (\<lambda>c. \<not> isWhitespace c) b = []"
  by (cases b) simp_all

lemma takeWhile_append_ws:
  "list_all isWhitespace b \<Longrightarrow>
    takeWhile (\<lambda>c. \<not> isWhitespace c) (cs @ b) = takeWhile (\<lambda>c. \<not> isWhitespace c) cs"
  by (induction cs) (simp_all add: takeWhile_nonws_ws)

lemma dropWhile_nonws_ws: "list_all isWhitespace b \<Longrightarrow> dropWhile (\<lambda>c. \<not> isWhitespace c) b = b"
  by (cases b) simp_all

lemma dropWhile_append_ws:
  "list_all isWhitespace b \<Longrightarrow>
    dropWhile (\<lambda>c. \<not> isWhitespace c) (cs @ b) = dropWhile (\<lambda>c. \<not> isWhitespace c) cs @ b"
  by (induction cs) (simp_all add: dropWhile_nonws_ws)

lemma scanWords_trailing:
  "list_all isWhitespace b \<Longrightarrow> (\<And>r. F (r @ b) = F r) \<Longrightarrow>
    scanWords p F (x @ b) = scanWords p F x"
proof (induction p F x rule: scanWords.induct)
  case (1 p F)
  then show ?case
    using scanWords_leading [of b p F "[]"] by simp
next
  case (2 p F c cs)
  then show ?case
    by (simp add: takeWhile_append_ws dropWhile_append_ws)
qed

lemma rev_dropWhile_split:
  "d = rev (dropWhile P (rev d)) @ rev (takeWhile P (rev d))"
  by (metis rev_append rev_rev_ident takeWhile_dropWhile_id)

lemma trim_empty: "(trim s = []) = list_all isWhitespace s"
proof
  assume "trim s = []"
  then have a: "\<forall>x \<in> set (dropWhile isWhitespace s). isWhitespace x"
    by (simp add: trim_def dropWhile_eq_Nil_conv)
  have "dropWhile isWhitespace s = []"
  proof (rule ccontr)
    assume ne: "dropWhile isWhitespace s \<noteq> []"
    then have "\<not> isWhitespace (hd (dropWhile isWhitespace s))"
      by (rule hd_dropWhile)
    moreover from ne have "hd (dropWhile isWhitespace s) \<in> set (dropWhile isWhitespace s)"
      by simp
    ultimately show False using a by blast
  qed
  then show "list_all isWhitespace s"
    by (simp add: dropWhile_eq_Nil_conv list_all_iff)
next
  assume "list_all isWhitespace s"
  then have dw: "dropWhile isWhitespace s = []"
    by (simp add: dropWhile_eq_Nil_conv list_all_iff)
  show "trim s = []"
    unfolding trim_def dw by simp
qed

lemma trim_decompose:
  "\<exists>a b. s = a @ trim s @ b \<and> list_all isWhitespace a \<and> list_all isWhitespace b"
proof -
  define d where "d = dropWhile isWhitespace s"
  have 1: "s = takeWhile isWhitespace s @ d"
    by (simp add: d_def)
  have 2: "d = trim s @ rev (takeWhile isWhitespace (rev d))"
    using rev_dropWhile_split [of d isWhitespace] by (simp add: trim_def d_def)
  have 3: "list_all isWhitespace (takeWhile isWhitespace s)"
    by (simp add: list_all_iff) (meson set_takeWhileD)
  have 4: "list_all isWhitespace (rev (takeWhile isWhitespace (rev d)))"
    by (simp add: list_all_iff) (meson set_takeWhileD)
  from 1 2 have "s = takeWhile isWhitespace s @ trim s @ rev (takeWhile isWhitespace (rev d))"
    by simp
  with 3 4 show ?thesis by blast
qed

lemma trim_ends:
  assumes "trim s \<noteq> []"
  shows "\<not> isWhitespace (hd (trim s)) \<and> \<not> isWhitespace (last (trim s))"
proof -
  define d where "d = dropWhile isWhitespace s"
  define e where "e = dropWhile isWhitespace (rev d)"
  have t: "trim s = rev e" by (simp add: trim_def d_def e_def)
  with assms have ene: "e \<noteq> []" by simp
  then have "\<not> isWhitespace (hd e)"
    unfolding e_def by (rule hd_dropWhile)
  then have l: "\<not> isWhitespace (last (trim s))"
    using ene t by (simp add: last_rev)
  have "d \<noteq> []" using ene unfolding e_def by auto
  then have hd: "\<not> isWhitespace (hd d)"
    unfolding d_def by (rule hd_dropWhile)
  have "d = trim s @ rev (takeWhile isWhitespace (rev d))"
    using rev_dropWhile_split [of d isWhitespace] by (simp add: t e_def)
  with assms have "hd d = hd (trim s)"
    by (metis hd_append2)
  with hd l show ?thesis by simp
qed



lemma splitWhitespace_last:
  "dropWhile (\<lambda>c. \<not> isWhitespace c) s = [] \<Longrightarrow>
    splitWhitespace s = [takeWhile (\<lambda>c. \<not> isWhitespace c) s]"
  by (subst splitWhitespace.simps) (simp add: Let_def)

lemma splitWhitespace_more:
  "dropWhile (\<lambda>c. \<not> isWhitespace c) s \<noteq> [] \<Longrightarrow>
    splitWhitespace s = takeWhile (\<lambda>c. \<not> isWhitespace c) s
      # splitWhitespace (dropWhile isWhitespace (dropWhile (\<lambda>c. \<not> isWhitespace c) s))"
  by (subst splitWhitespace.simps) (simp only: Let_def if_False)


lemma splitWhitespace_nonempty: "splitWhitespace s \<noteq> []"
  by (cases "dropWhile (\<lambda>c. \<not> isWhitespace c) s = []")
    (simp_all add: splitWhitespace_last splitWhitespace_more)

lemma wordsStruct_splitWhitespace:
  "s \<noteq> [] \<Longrightarrow> \<not> isWhitespace (hd s) \<Longrightarrow> \<not> isWhitespace (last s) \<Longrightarrow>
    wordsStruct p e (splitWhitespace s) = scanWords p (\<lambda>r. list_all isWhitespace r \<and> e) s"
proof (induction s rule: splitWhitespace.induct)
  case (1 s)
  from "1.prems" obtain c cs where s: "s = c # cs" and c: "\<not> isWhitespace c"
    by (cases s) auto
  define frag where "frag = takeWhile (\<lambda>c. \<not> isWhitespace c) s"
  define rest where "rest = dropWhile (\<lambda>c. \<not> isWhitespace c) s"
  have frag: "frag = c # takeWhile (\<lambda>c. \<not> isWhitespace c) cs"
    using s c by (simp add: frag_def)
  have rest: "rest = dropWhile (\<lambda>c. \<not> isWhitespace c) cs"
    using s c by (simp add: rest_def)
  have sc: "scanWords p (\<lambda>r. list_all isWhitespace r \<and> e) s
      = tokenOf p (list_all isWhitespace rest \<and> e) frag
        # scanWords p (\<lambda>r. list_all isWhitespace r \<and> e) rest"
    using s c by (simp add: frag rest)
  show ?case
  proof (cases "rest = []")
    case True
    then have "splitWhitespace s = [frag]"
      unfolding frag_def rest_def by (rule splitWhitespace_last)
    then have A: "wordsStruct p e (splitWhitespace s) = [tokenOf p e frag]"
      using frag by simp
    have B: "scanWords p (\<lambda>r. list_all isWhitespace r \<and> e) s = [tokenOf p e frag]"
      using sc True by simp
    show ?thesis by (simp only: A B)
  next
    case False
    define s' where "s' = dropWhile isWhitespace rest"
    have sw: "splitWhitespace s = frag # splitWhitespace s'"
      using False unfolding frag_def rest_def s'_def by (rule splitWhitespace_more)
    have sdecomp: "s = takeWhile (\<lambda>c. \<not> isWhitespace c) s @ rest"
      by (simp add: rest_def)
    have rdecomp: "rest = takeWhile isWhitespace rest @ s'"
      by (simp add: s'_def)
    have lead: "list_all isWhitespace (takeWhile isWhitespace rest)"
      by (simp add: list_all_iff) (meson set_takeWhileD)
    have lastrest: "last s = last rest"
      using False sdecomp by (metis last_appendR)
    have s'ne: "s' \<noteq> []"
    proof
      assume "s' = []"
      with rdecomp have "rest = takeWhile isWhitespace rest" by simp
      with lead have "list_all isWhitespace rest" by simp
      with False have "isWhitespace (last rest)"
        by (simp add: list_all_iff)
      with lastrest "1.prems" show False by simp
    qed
    have notall: "\<not> list_all isWhitespace rest"
    proof
      assume "list_all isWhitespace rest"
      with False have "isWhitespace (last rest)"
        by (simp add: list_all_iff)
      with lastrest "1.prems" show False by simp
    qed
    have hd': "\<not> isWhitespace (hd s')"
      using s'ne unfolding s'_def by (rule hd_dropWhile)
    have last': "\<not> isWhitespace (last s')"
      using s'ne rdecomp lastrest "1.prems" by (metis last_appendR)
    have ih: "wordsStruct p e (splitWhitespace s')
        = scanWords p (\<lambda>r. list_all isWhitespace r \<and> e) s'"
      using "1.IH" [OF frag_def rest_def False] s'ne hd' last' unfolding s'_def by simp
    have "scanWords p (\<lambda>r. list_all isWhitespace r \<and> e) rest
        = scanWords p (\<lambda>r. list_all isWhitespace r \<and> e) s'"
      using scanWords_leading [OF lead, of p _ s'] rdecomp by simp
    with sw sc ih notall frag show ?thesis
      by (simp add: splitWhitespace_nonempty)
  qed
qed

lemma line_tokens:
  "(if trim l = [] then [] else wordsStruct p e (splitWhitespace (trim l)))
     = scanWords p (\<lambda>r. list_all isWhitespace r \<and> e) l"
proof -
  obtain a b where l: "l = a @ trim l @ b" and a: "list_all isWhitespace a"
    and b: "list_all isWhitespace b"
    using trim_decompose by blast
  have "scanWords p (\<lambda>r. list_all isWhitespace r \<and> e) l
      = scanWords p (\<lambda>r. list_all isWhitespace r \<and> e) (a @ (trim l @ b))"
    using l by simp
  also have "\<dots> = scanWords p (\<lambda>r. list_all isWhitespace r \<and> e) (trim l @ b)"
    using a by (rule scanWords_leading)
  also have "\<dots> = scanWords p (\<lambda>r. list_all isWhitespace r \<and> e) (trim l)"
    using b by (rule scanWords_trailing) (simp add: b)
  finally have eq: "scanWords p (\<lambda>r. list_all isWhitespace r \<and> e) l
      = scanWords p (\<lambda>r. list_all isWhitespace r \<and> e) (trim l)" .
  show ?thesis
  proof (cases "trim l = []")
    case True
    with eq show ?thesis by simp
  next
    case False
    with trim_ends [OF False] eq show ?thesis
      by (simp add: wordsStruct_splitWhitespace)
  qed
qed

lemma linesLoop_struct:
  "n = i + length ls \<Longrightarrow> linesLoop p n i ls = linesStruct p ls"
proof (induction ls arbitrary: i)
  case Nil
  then show ?case by simp
next
  case (Cons l ls)
  have flag: "(int i < int n - 1) = (ls \<noteq> [])"
    using Cons.prems by auto
  have ih: "linesLoop p n (Suc i) ls = linesStruct p ls"
    using Cons by simp
  have "linesLoop p n i (l # ls)
      = (if trim l = [] then [] else wordsStruct p (ls \<noteq> []) (splitWhitespace (trim l)))
        @ linesStruct p ls"
    by (simp add: Let_def ih flag wordsLoop_struct)
  then show ?case
    by (simp only: line_tokens linesStruct.simps)
qed

lemma tokenize_struct: "tokenize s p = linesStruct p (splitLines s)"
  by (simp add: tokenize_def Let_def linesLoop_struct)

lemma linesStruct_texts:
  "map text (linesStruct p ls)
     = concat (map (\<lambda>l. filter (\<lambda>f. f \<noteq> []) (splitOn isWhitespace l)) ls)"
  by (induction ls) (simp_all add: scanWords_texts)

lemma tokenize_fragments: "map text (tokenize s p) = fragmentsOfLines s"
  by (simp add: tokenize_struct linesStruct_texts fragmentsOfLines_def)


lemma isWhitespace_newline [simp]: "isWhitespace 10"
  by (simp add: isWhitespace_def)

lemma isWhitespace_cr [simp]: "isWhitespace 13"
  by (simp add: isWhitespace_def)

lemma takeWhile_nonws_append_ws:
  "isWhitespace d \<Longrightarrow>
    takeWhile (\<lambda>c. \<not> isWhitespace c) (cs @ d # r) = takeWhile (\<lambda>c. \<not> isWhitespace c) cs"
  by (induction cs) simp_all

lemma dropWhile_nonws_append_ws:
  "isWhitespace d \<Longrightarrow>
    dropWhile (\<lambda>c. \<not> isWhitespace c) (cs @ d # r)
      = dropWhile (\<lambda>c. \<not> isWhitespace c) cs @ d # r"
  by (induction cs) simp_all

lemma followedByNewline_append:
  "10 \<notin> set x \<Longrightarrow> followedByNewline (x @ 10 # r) = list_all isWhitespace x"
  by (induction x) (simp_all add: followedByNewline_def)

lemma followedByNewline_none:
  "10 \<notin> set x \<Longrightarrow> \<not> followedByNewline x"
  unfolding followedByNewline_def by (meson set_takeWhileD)

lemma notin_dropWhile: "a \<notin> set cs \<Longrightarrow> a \<notin> set (dropWhile P cs)"
  by (meson set_dropWhileD)

lemma scanWords_line_break:
  "10 \<notin> set l \<Longrightarrow>
    scanWords p followedByNewline (l @ 10 # r)
      = scanWords p (list_all isWhitespace) l @ scanWords p followedByNewline r"
proof (induction p "list_all isWhitespace :: jsstring \<Rightarrow> bool" l rule: scanWords.induct)
  case (1 p)
  then show ?case by simp
next
  case (2 p c cs)
  show ?case
  proof (cases "isWhitespace c")
    case True
    with 2 show ?thesis by simp
  next
    case False
    define rest where "rest = dropWhile (\<lambda>c. \<not> isWhitespace c) cs"
    have n: "10 \<notin> set rest"
      using "2.prems"(1) unfolding rest_def by (simp add: notin_dropWhile)
    have ih: "scanWords p followedByNewline (rest @ 10 # r)
        = scanWords p (list_all isWhitespace) rest @ scanWords p followedByNewline r"
      using "2.hyps"(2) [OF False] n unfolding rest_def by simp
    have fl: "followedByNewline (rest @ 10 # r) = list_all isWhitespace rest"
      using n by (simp add: followedByNewline_append)
    show ?thesis
      using False ih fl unfolding rest_def
      by (simp add: takeWhile_nonws_append_ws dropWhile_nonws_append_ws)
  qed
qed

lemma scanWords_last_line:
  "10 \<notin> set l \<Longrightarrow> scanWords p followedByNewline l = scanWords p (\<lambda>r. False) l"
proof (induction p "(\<lambda>r. False) :: jsstring \<Rightarrow> bool" l rule: scanWords.induct)
  case (1 p)
  then show ?case by simp
next
  case (2 p c cs)
  show ?case
  proof (cases "isWhitespace c")
    case True
    with 2 show ?thesis by simp
  next
    case False
    have n: "10 \<notin> set (dropWhile (\<lambda>c. \<not> isWhitespace c) cs)"
      using "2.prems"(1) by (simp add: notin_dropWhile)
    have ih: "scanWords p followedByNewline (dropWhile (\<lambda>c. \<not> isWhitespace c) cs)
        = scanWords p (\<lambda>r. False) (dropWhile (\<lambda>c. \<not> isWhitespace c) cs)"
      using "2.hyps"(2) [OF False] n by simp
    show ?thesis
      using False ih followedByNewline_none [OF n] by simp
  qed
qed

lemma splitLinesFrom_nonempty: "splitLinesFrom cur s \<noteq> []"
  by (induction cur s rule: splitLinesFrom.induct) simp_all

lemma linesStruct_splitLinesFrom:
  "10 \<notin> set cur \<Longrightarrow> linesStruct p (splitLinesFrom cur s) = scanWords p followedByNewline (cur @ s)"
proof (induction cur s rule: splitLinesFrom.induct)
  case (1 cur)
  then show ?case
    by (simp add: scanWords_last_line)
next
  case (2 cur c)
  show ?case
  proof (cases "c = 10")
    case True
    with 2 show ?thesis
      by (simp add: scanWords_line_break)
  next
    case False
    with 2 have "10 \<notin> set (cur @ [c])" by simp
    then show ?thesis
      using False by (simp add: scanWords_last_line)
  qed
next
  case (3 cur c d cs)
  show ?case
  proof (cases "c = 10")
    case True
    have "linesStruct p (splitLinesFrom [] (d # cs)) = scanWords p followedByNewline (d # cs)"
      using "3.IH"(1) [OF True] by simp
    with True "3.prems" show ?thesis
      by (simp add: splitLinesFrom_nonempty scanWords_line_break)
  next
    case False
    then have notnl: "c \<noteq> 10" .
    show ?thesis
    proof (cases "c = 13 \<and> d = 10")
      case True
      have ih: "linesStruct p (splitLinesFrom [] cs) = scanWords p followedByNewline cs"
        using "3.IH"(2) [OF notnl True] by simp
      have "10 \<notin> set (cur @ [13])" using "3.prems" by simp
      then have "scanWords p followedByNewline ((cur @ [13]) @ 10 # cs)
          = scanWords p (list_all isWhitespace) (cur @ [13])
            @ scanWords p followedByNewline cs"
        by (rule scanWords_line_break)
      also have "scanWords p (list_all isWhitespace) (cur @ [13])
          = scanWords p (list_all isWhitespace) cur"
        by (rule scanWords_trailing) simp_all
      finally show ?thesis
        using True ih by (simp add: splitLinesFrom_nonempty)
    next
      case False
      have "10 \<notin> set (cur @ [c])" using "3.prems" notnl by simp
      then have "linesStruct p (splitLinesFrom (cur @ [c]) (d # cs))
          = scanWords p followedByNewline ((cur @ [c]) @ d # cs)"
        using "3.IH"(3) [OF notnl False] by simp
      with False notnl show ?thesis by auto
    qed
  qed
qed

lemma tokenize_scan: "tokenize s p = scanWords p followedByNewline s"
  using linesStruct_splitLinesFrom [of "[]" p s]
  by (simp add: tokenize_struct splitLines_def)


lemma calculatePauseMultiplier_punctuation:
  "\<not> paragraphBreakTest w \<Longrightarrow> calculatePauseMultiplier w p = punctuationPause w p"
  by (simp add: calculatePauseMultiplier_def punctuationPause_def Let_def)

lemma paragraphBreakTest_newline: "paragraphBreakTest s \<Longrightarrow> 10 \<in> set s"
  by (induction s) auto

lemma paragraphBreakTest_intro:
  "list_all isWhitespace w \<Longrightarrow> paragraphBreakTest (a @ 10 # w @ 10 # b)"
proof (induction a)
  case Nil
  have "takeWhile isWhitespace (w @ 10 # b) = w @ takeWhile isWhitespace (10 # b)"
    using Nil by (intro takeWhile_append2) (simp add: list_all_iff)
  then show ?case by simp
next
  case (Cons c a)
  then show ?case by simp
qed

lemma paragraphBreakTest_elim:
  "paragraphBreakTest s \<Longrightarrow> \<exists>a w b. s = a @ 10 # w @ 10 # b \<and> list_all isWhitespace w"
proof (induction s)
  case Nil
  then show ?case by simp
next
  case (Cons c cs)
  show ?case
  proof (cases "c = 10 \<and> 10 \<in> set (takeWhile isWhitespace cs)")
    case True
    then obtain w w' where tw: "takeWhile isWhitespace cs = w @ 10 # w'"
      by (meson split_list)
    have "list_all isWhitespace (takeWhile isWhitespace cs)"
      by (simp add: list_all_iff) (meson set_takeWhileD)
    with tw have w: "list_all isWhitespace w" by simp
    have "cs = takeWhile isWhitespace cs @ dropWhile isWhitespace cs" by simp
    with tw have "c # cs = [] @ 10 # w @ 10 # (w' @ dropWhile isWhitespace cs)"
      using True by simp
    with w show ?thesis by blast
  next
    case False
    with Cons.prems have "paragraphBreakTest cs" by auto
    with Cons.IH obtain a w b where "cs = a @ 10 # w @ 10 # b" and "list_all isWhitespace w"
      by blast
    then have "c # cs = (c # a) @ 10 # w @ 10 # b \<and> list_all isWhitespace w" by simp
    then show ?thesis by blast
  qed
qed

lemma scanWords_prefix:
  "pre = [] \<or> isWhitespace (last pre) \<Longrightarrow>
    \<exists>ts. scanWords p F (pre @ x) = ts @ scanWords p F x
       \<and> map text ts = map text (scanWords p F pre)"
proof (induction p F pre rule: scanWords.induct)
  case (1 p F)
  then show ?case by simp
next
  case (2 p F c cs)
  show ?case
  proof (cases "isWhitespace c")
    case True
    have "cs = [] \<or> isWhitespace (last cs)"
      using "2.prems" by (cases cs) auto
    from "2.IH"(1) [OF True this] True show ?thesis by simp
  next
    case False
    with "2.prems" have cs: "cs \<noteq> []" and lcs: "isWhitespace (last cs)"
      by (auto split: if_splits)
    define rest where "rest = dropWhile (\<lambda>c. \<not> isWhitespace c) cs"
    have mem: "last cs \<in> set cs" using cs by simp
    have tw: "takeWhile (\<lambda>c. \<not> isWhitespace c) (cs @ x) = takeWhile (\<lambda>c. \<not> isWhitespace c) cs"
      using mem lcs by (intro takeWhile_append1 [of "last cs"]) simp_all
    have dw: "dropWhile (\<lambda>c. \<not> isWhitespace c) (cs @ x) = rest @ x"
      unfolding rest_def using mem lcs by (intro dropWhile_append1 [of "last cs"]) simp_all
    have rne: "rest \<noteq> []"
      unfolding rest_def using mem lcs by (auto simp add: dropWhile_eq_Nil_conv)
    have "cs = takeWhile (\<lambda>c. \<not> isWhitespace c) cs @ rest"
      by (simp add: rest_def)
    with rne have "last cs = last rest"
      by (metis last_appendR)
    with lcs rne have "rest = [] \<or> isWhitespace (last rest)" by simp
    from "2.IH"(2) [OF False, folded rest_def, OF this]
    obtain ts where ts: "scanWords p F (rest @ x) = ts @ scanWords p F x"
      and tx: "map text ts = map text (scanWords p F rest)"
      by blast
    have "scanWords p F ((c # cs) @ x)
        = (tokenOf p (F (rest @ x)) (c # takeWhile (\<lambda>c. \<not> isWhitespace c) cs) # ts)
          @ scanWords p F x"
      using False tw dw ts by simp
    moreover have "map text (tokenOf p (F (rest @ x)) (c # takeWhile (\<lambda>c. \<not> isWhitespace c) cs) # ts)
        = map text (scanWords p F (c # cs))"
      using False tx by (simp add: tokenOf_def rest_def)
    ultimately show ?thesis by blast
  qed
qed

lemma scanWords_word:
  assumes "w \<noteq> []" and "list_all (\<lambda>c. \<not> isWhitespace c) w"
    and "x = [] \<or> isWhitespace (hd x)"
  shows "scanWords p F (w @ x) = tokenOf p (F x) w # scanWords p F x"
proof -
  from assms(1) obtain c cs where w: "w = c # cs" by (cases w) auto
  with assms(2) have c: "\<not> isWhitespace c" and cs: "list_all (\<lambda>c. \<not> isWhitespace c) cs"
    by simp_all
  have x0: "takeWhile (\<lambda>c. \<not> isWhitespace c) x = []"
    using assms(3) by (cases x) auto
  have x1: "dropWhile (\<lambda>c. \<not> isWhitespace c) x = x"
    using assms(3) by (cases x) auto
  have tw: "takeWhile (\<lambda>c. \<not> isWhitespace c) (cs @ x) = cs"
    using cs x0 by (simp add: takeWhile_append2 list_all_iff)
  have dw: "dropWhile (\<lambda>c. \<not> isWhitespace c) (cs @ x) = x"
    using cs x1 by (simp add: dropWhile_append2 list_all_iff)
  show ?thesis
    using w c tw dw by simp
qed

lemma token_before_line_break:
  assumes "w \<noteq> []" and "list_all (\<lambda>c. \<not> isWhitespace c) w"
    and "pre = [] \<or> isWhitespace (last pre)"
    and "gap \<noteq> []" and "list_all isWhitespace gap" and "10 \<in> set gap"
  shows "\<exists>ts. tokenize (pre @ w @ gap @ rest) p
            = ts @ tokenOf p True w # tokenize (gap @ rest) p
          \<and> length ts = length (tokenize pre p)"
proof -
  have hdgap: "gap @ rest = [] \<or> isWhitespace (hd (gap @ rest))"
    using assms(4,5) by (cases gap) auto
  have "takeWhile isWhitespace (gap @ rest) = gap @ takeWhile isWhitespace rest"
    using assms(5) by (intro takeWhile_append2) (simp add: list_all_iff)
  with assms(6) have fl: "followedByNewline (gap @ rest)"
    by (simp add: followedByNewline_def)
  from scanWords_prefix [OF assms(3), of p followedByNewline "w @ gap @ rest"]
  obtain ts where ts: "scanWords p followedByNewline (pre @ w @ gap @ rest)
      = ts @ scanWords p followedByNewline (w @ gap @ rest)"
    and tx: "map text ts = map text (scanWords p followedByNewline pre)"
    by blast
  have "scanWords p followedByNewline (w @ gap @ rest)
      = tokenOf p True w # scanWords p followedByNewline (gap @ rest)"
    using scanWords_word [OF assms(1,2) hdgap, of p followedByNewline] fl by simp
  with ts have "tokenize (pre @ w @ gap @ rest) p
      = ts @ tokenOf p True w # tokenize (gap @ rest) p"
    by (simp add: tokenize_scan)
  moreover from tx have "length ts = length (tokenize pre p)"
    by (metis length_map tokenize_scan)
  ultimately show ?thesis by blast
qed


section \<open>Tokens and fragments\<close>

text \<open>
  C5. The texts of the tokens of \<open>tokenize\<close> are, in order, the non-empty fragments that
  cutting every line of the input at white space gives: one token per fragment, so the
  number of tokens is the number of such fragments; no fragment counted is empty; and
  the empty input gives no token.
\<close>

theorem tokenize_fragment_count:
  "map text (tokenize s p) = fragmentsOfLines s
   \<and> length (tokenize s p) = length (fragmentsOfLines s)
   \<and> [] \<notin> set (fragmentsOfLines s)
   \<and> tokenize [] p = []"
proof -
  have "map text (tokenize s p) = fragmentsOfLines s"
    by (rule tokenize_fragments)
  moreover from this have "length (tokenize s p) = length (fragmentsOfLines s)"
    by (metis length_map)
  moreover have "[] \<notin> set (fragmentsOfLines s)"
    by (simp add: fragmentsOfLines_def)
  moreover have "tokenize [] p = []"
    by (simp add: tokenize_scan)
  ultimately show ?thesis by blast
qed



theorem tokenize_fragment_count_witness:
  "length (tokenize (js ''Hello, world! Next line here.'') normalProfile) = 5
   \<and> map text (tokenize (js ''  a b \<newline>\<newline> c  '') normalProfile) = [js ''a'', js ''b'', js ''c'']
   \<and> tokenize [] normalProfile = []"
proof -
  have 1: "fragmentsOfLines (js ''Hello, world! Next line here.'')
     = [js ''Hello,'', js ''world!'', js ''Next'', js ''line'', js ''here.'']"
    by (simp add: fragmentsOfLines_def splitLines_def js_def isWhitespace_def)
  have 2: "fragmentsOfLines (js ''  a b \<newline>\<newline> c  '') = [js ''a'', js ''b'', js ''c'']"
    by (simp add: fragmentsOfLines_def splitLines_def js_def isWhitespace_def)
  show ?thesis
    using tokenize_fragment_count [of "js ''Hello, world! Next line here.''" normalProfile]
      tokenize_fragment_count [of "js ''  a b \<newline>\<newline> c  ''" normalProfile]
    by (simp add: 1 2)
qed

section \<open>Paragraph pauses\<close>

lemma tokenize_whitespace_only:
  "list_all isWhitespace s \<Longrightarrow> tokenize s p = []"
  using scanWords_leading [of s p followedByNewline "[]"] by (simp add: tokenize_scan)

lemma nonws_no_paragraphBreak:
  "list_all (\<lambda>c. \<not> isWhitespace c) w \<Longrightarrow> \<not> paragraphBreakTest w"
proof
  assume a: "list_all (\<lambda>c. \<not> isWhitespace c) w" and "paragraphBreakTest w"
  then have "10 \<in> set w" by (simp add: paragraphBreakTest_newline)
  with a show False by (auto simp add: list_all_iff)
qed

lemma tokenOf_end_of_paragraph:
  "list_all (\<lambda>c. \<not> isWhitespace c) w \<Longrightarrow>
    text (tokenOf p True w) = w
    \<and> pauseMultiplier (tokenOf p True w) = max (punctuationPause w p) (paragraph p)"
  by (simp add: tokenOf_def calculatePauseMultiplier_punctuation nonws_no_paragraphBreak)

lemma punctuationPause_le_paragraph:
  "paragraphLargest p \<Longrightarrow> punctuationPause w p \<le> paragraph p"
  by (simp add: paragraphLargest_def punctuationPause_def Let_def)

text \<open>
  C10. When the text ends with white space that holds a line feed, after its last word
  \<open>w\<close>, the last token of \<open>tokenize\<close> is the one of \<open>w\<close> and its pause multiplier is
  the larger of the punctuation-derived pause of \<open>w\<close> and the paragraph pause.
\<close>

theorem final_token_paragraph_floor:
  assumes "w \<noteq> []" and "list_all (\<lambda>c. \<not> isWhitespace c) w"
    and "pre = [] \<or> isWhitespace (last pre)"
    and "list_all isWhitespace trail" and "10 \<in> set trail"
  shows "tokenize (pre @ w @ trail) p \<noteq> []
       \<and> text (last (tokenize (pre @ w @ trail) p)) = w
       \<and> pauseMultiplier (last (tokenize (pre @ w @ trail) p))
           = max (punctuationPause w p) (paragraph p)"
proof -
  from assms(5) have ne: "trail \<noteq> []" by auto
  from token_before_line_break [OF assms(1,2,3) ne assms(4,5), of "[]" p]
  obtain ts where "tokenize (pre @ w @ trail) p = ts @ tokenOf p True w # tokenize trail p"
    by auto
  then have "tokenize (pre @ w @ trail) p = ts @ [tokenOf p True w]"
    using assms(4) by (simp add: tokenize_whitespace_only)
  then show ?thesis
    using tokenOf_end_of_paragraph [OF assms(2), of p] by simp
qed

theorem final_token_paragraph_floor_witness:
  "pauseMultiplier (last (tokenize (js ''One two.\<newline>'') normalProfile)) = 2
   \<and> text (last (tokenize (js ''One two.\<newline>'') normalProfile)) = js ''two.''
   \<and> pauseMultiplier (last (tokenize (js ''One two.\<newline>'') longSentenceProfile)) = 3"
proof -
  have d: "js ''One two.\<newline>'' = js ''One '' @ js ''two.'' @ js ''\<newline>''"
    by (simp add: js_def)
  have 1: "js ''two.'' \<noteq> []" and 2: "list_all (\<lambda>c. \<not> isWhitespace c) (js ''two.'')"
    and 3: "js ''One '' = [] \<or> isWhitespace (last (js ''One ''))"
    and 4: "list_all isWhitespace (js ''\<newline>'')" and 5: "10 \<in> set (js ''\<newline>'')"
    by (simp_all add: js_def isWhitespace_def)
  have n: "max (punctuationPause (js ''two.'') normalProfile) (paragraph normalProfile) = 2"
    by (simp add: punctuationPause_def trim_def js_def isWhitespace_def normalProfile_def)
  have l: "max (punctuationPause (js ''two.'') longSentenceProfile) (paragraph longSentenceProfile) = 3"
    by (simp add: punctuationPause_def trim_def js_def isWhitespace_def longSentenceProfile_def)
  show ?thesis
    using final_token_paragraph_floor [OF 1 2 3 4 5, of normalProfile]
      final_token_paragraph_floor [OF 1 2 3 4 5, of longSentenceProfile]
    unfolding d [symmetric] n l by simp
qed

text \<open>
  C6 as stated fails for a profile whose sentence pause exceeds its paragraph pause. For
  the segment of a full stop and two line feeds \<open>calculatePauseMultiplier\<close> returns the
  paragraph pause 1, not the maximum 3 with the punctuation-derived pause; and the token
  \<open>a.\<close> of \<open>tokenize\<close>, followed by two line feeds, gets 3, not the paragraph pause.
\<close>

theorem paragraph_break_pause_counterexample:
  "paragraphBreakTest (js ''.\<newline>\<newline>'')
   \<and> calculatePauseMultiplier (js ''.\<newline>\<newline>'') longSentenceProfile = 1
   \<and> max (punctuationPause (js ''.\<newline>\<newline>'') longSentenceProfile)
         (paragraph longSentenceProfile) = 3
   \<and> text (tokenize (js ''a.\<newline>\<newline>b'') longSentenceProfile ! 0) = js ''a.''
   \<and> pauseMultiplier (tokenize (js ''a.\<newline>\<newline>b'') longSentenceProfile ! 0) = 3
   \<and> paragraph longSentenceProfile = 1"
proof -
  have "paragraphBreakTest (js ''.\<newline>\<newline>'')"
    by (simp add: js_def isWhitespace_def)
  moreover have "calculatePauseMultiplier (js ''.\<newline>\<newline>'') longSentenceProfile = 1"
    by (simp add: js_def isWhitespace_def calculatePauseMultiplier_def longSentenceProfile_def)
  moreover have "max (punctuationPause (js ''.\<newline>\<newline>'') longSentenceProfile)
      (paragraph longSentenceProfile) = 3"
    by (simp add: js_def isWhitespace_def punctuationPause_def longSentenceProfile_def trim_def)
  moreover have "tokenize (js ''a.\<newline>\<newline>b'') longSentenceProfile
      = [\<lparr>text = js ''a.'', orpIndex = 0, pauseMultiplier = 3\<rparr>,
         \<lparr>text = js ''b'', orpIndex = 0, pauseMultiplier = 0\<rparr>]"
    by (simp add: tokenize_scan js_def isWhitespace_def tokenOf_def followedByNewline_def
        calculatePauseMultiplier_def calculateORPIndex_def trim_def longSentenceProfile_def Let_def)
  moreover have "paragraph longSentenceProfile = 1"
    by (simp add: longSentenceProfile_def)
  ultimately show ?thesis by simp
qed

text \<open>
  C6, amended. For a profile whose paragraph pause is not negative and at least its
  comma, colon, period, exclamation and question pauses: a segment in which two line
  feeds stand with only white space between them gets the paragraph pause from
  \<open>calculatePauseMultiplier\<close>, which is then the maximum of the paragraph pause and
  the punctuation-derived pause; and a token of \<open>tokenize\<close> that is followed by white
  space holding such a double line break has the paragraph pause as its multiplier,
  whatever its trailing punctuation.
\<close>

theorem paragraph_break_pause:
  assumes "paragraphLargest p"
  shows "(paragraphBreakTest seg \<longrightarrow>
            calculatePauseMultiplier seg p = paragraph p
          \<and> calculatePauseMultiplier seg p = max (punctuationPause seg p) (paragraph p))
       \<and> (w \<noteq> [] \<and> list_all (\<lambda>c. \<not> isWhitespace c) w
            \<and> (pre = [] \<or> isWhitespace (last pre))
            \<and> list_all isWhitespace gap \<and> paragraphBreakTest gap \<longrightarrow>
            length (tokenize pre p) < length (tokenize (pre @ w @ gap @ rest) p)
          \<and> text (tokenize (pre @ w @ gap @ rest) p ! length (tokenize pre p)) = w
          \<and> pauseMultiplier (tokenize (pre @ w @ gap @ rest) p ! length (tokenize pre p))
              = paragraph p)"
proof -
  have le: "punctuationPause x p \<le> paragraph p" for x
    using assms by (rule punctuationPause_le_paragraph)
  have seg: "calculatePauseMultiplier seg p = paragraph p
      \<and> calculatePauseMultiplier seg p = max (punctuationPause seg p) (paragraph p)"
    if "paragraphBreakTest seg"
    using that le [of seg] by (simp add: calculatePauseMultiplier_def Let_def max_def)
  have tok: "length (tokenize pre p) < length (tokenize (pre @ w @ gap @ rest) p)
      \<and> text (tokenize (pre @ w @ gap @ rest) p ! length (tokenize pre p)) = w
      \<and> pauseMultiplier (tokenize (pre @ w @ gap @ rest) p ! length (tokenize pre p))
          = paragraph p"
    if h: "w \<noteq> [] \<and> list_all (\<lambda>c. \<not> isWhitespace c) w
        \<and> (pre = [] \<or> isWhitespace (last pre))
        \<and> list_all isWhitespace gap \<and> paragraphBreakTest gap"
  proof -
    from h have nl: "10 \<in> set gap" by (simp add: paragraphBreakTest_newline)
    then have ne: "gap \<noteq> []" by auto
    from h token_before_line_break [OF _ _ _ ne _ nl, of w pre rest p]
    obtain ts where eq: "tokenize (pre @ w @ gap @ rest) p
          = ts @ tokenOf p True w # tokenize (gap @ rest) p"
      and len: "length ts = length (tokenize pre p)"
      by auto
    from eq len have nth: "tokenize (pre @ w @ gap @ rest) p ! length (tokenize pre p)
        = tokenOf p True w"
      by (metis nth_append_length)
    from eq len have "length (tokenize pre p) < length (tokenize (pre @ w @ gap @ rest) p)"
      by simp
    moreover have "text (tokenOf p True w) = w
        \<and> pauseMultiplier (tokenOf p True w) = paragraph p"
      using h tokenOf_end_of_paragraph [of w p] le [of w] by (simp add: max_def)
    ultimately show ?thesis
      using nth by simp
  qed
  from seg tok show ?thesis by blast
qed

theorem paragraph_break_pause_witness:
  "paragraphLargest normalProfile
   \<and> calculatePauseMultiplier (js ''end.\<newline>\<newline>'') normalProfile = 2
   \<and> text (tokenize (js ''One two.\<newline>\<newline>Three'') normalProfile ! 1) = js ''two.''
   \<and> pauseMultiplier (tokenize (js ''One two.\<newline>\<newline>Three'') normalProfile ! 1) = 2"
proof -
  have pl: "paragraphLargest normalProfile"
    by (simp add: paragraphLargest_def normalProfile_def)
  have pb: "paragraphBreakTest (js ''end.\<newline>\<newline>'')"
    by (simp add: js_def isWhitespace_def)
  have d: "js ''One two.\<newline>\<newline>Three''
      = js ''One '' @ js ''two.'' @ js ''\<newline>\<newline>'' @ js ''Three''"
    by (simp add: js_def)
  have h: "js ''two.'' \<noteq> [] \<and> list_all (\<lambda>c. \<not> isWhitespace c) (js ''two.'')
      \<and> (js ''One '' = [] \<or> isWhitespace (last (js ''One '')))
      \<and> list_all isWhitespace (js ''\<newline>\<newline>'') \<and> paragraphBreakTest (js ''\<newline>\<newline>'')"
    by (simp add: js_def isWhitespace_def)
  have k: "length (tokenize (js ''One '') normalProfile) = 1"
    by (simp add: tokenize_scan js_def isWhitespace_def)
  have par: "paragraph normalProfile = 2"
    by (simp add: normalProfile_def)
  show ?thesis
    using pl pb h paragraph_break_pause [OF pl, of "js ''end.\<newline>\<newline>''" "js ''two.''" "js ''One ''"
        "js ''\<newline>\<newline>''" "js ''Three''"]
    unfolding d [symmetric] k par by simp
qed


section \<open>Lifecycle of the scheduler\<close>

lemma stop_idem: "stop (stop w) = stop w"
  by (simp add: stop_def Let_def split: option.splits)

lemma stop_not_running: "\<not> isRunning (stop w)"
  by (simp add: stop_def Let_def split: option.splits)

lemma stop_calls: "calls (stop w) = calls w"
  by (simp add: stop_def Let_def split: option.splits)

lemma step_stopped:
  "\<not> isRunning w \<Longrightarrow> \<not> isStart e \<Longrightarrow>
    \<not> isRunning (step e w) \<and> calls (step e w) = calls w"
  by (cases e)
    (auto simp add: stop_not_running stop_calls fireTimeout_def fireFrame_def tick_def Let_def
      split: option.splits)

lemma run_stopped:
  "\<not> isRunning w \<Longrightarrow> list_all (\<lambda>e. \<not> isStart e) es \<Longrightarrow>
    \<not> isRunning (run es w) \<and> calls (run es w) = calls w"
proof (induction es arbitrary: w)
  case Nil
  then show ?case by simp
next
  case (Cons e es)
  from Cons.prems have a: "\<not> isRunning (step e w) \<and> calls (step e w) = calls w"
    by (simp add: step_stopped)
  with Cons.IH [of "step e w"] Cons.prems show ?case by simp
qed

lemma tracked_new: "tracked (newScheduler now1 now2 t f)"
  by (simp add: tracked_def newScheduler_def)

lemma tracked_stop_clear:
  "tracked w \<Longrightarrow> timeouts (stop w) = Map.empty \<and> frames (stop w) = Map.empty"
  by (auto simp add: tracked_def stop_def Let_def fun_eq_iff split: option.splits)

lemma tracked_stop: "tracked w \<Longrightarrow> tracked (stop w)"
  using tracked_stop_clear [of w]
  by (simp add: tracked_def stop_not_running) (simp add: stop_def Let_def split: option.splits)

lemma tracked_setTimeoutTick:
  "timeouts w = Map.empty \<Longrightarrow> frames w = Map.empty \<Longrightarrow> isRunning w \<Longrightarrow> isPlain c \<Longrightarrow>
    tracked (setTimeoutTick c i w)"
  by (simp add: tracked_def setTimeoutTick_def)

lemma tracked_requestFrameTick:
  "timeouts w = Map.empty \<Longrightarrow> frames w = Map.empty \<Longrightarrow> isRunning w \<Longrightarrow> isPlain c \<Longrightarrow>
    tracked (requestFrameTick c i w)"
  by (simp add: tracked_def requestFrameTick_def)

lemma tracked_tick:
  assumes "timeouts w = Map.empty" and "frames w = Map.empty" and "isRunning w" and "isPlain c"
  shows "tracked (tick c i now w)"
proof -
  from assms(4) obtain k where c: "c = Plain k" by (cases c) auto
  obtain delay st where d: "calculateNextTick now (state w) i = (delay, st)"
    by (cases "calculateNextTick now (state w) i") auto
  show ?thesis
    using assms d c
    by (simp add: tick_def Let_def tracked_setTimeoutTick tracked_requestFrameTick)
qed

lemma tracked_start:
  assumes "tracked w" and "isPlain c"
  shows "tracked (start c i now1 now2 w)"
proof (cases "isRunning w")
  case True
  with assms show ?thesis by (simp add: start_def)
next
  case False
  from assms(2) obtain k where c: "c = Plain k" by (cases c) auto
  from False assms(1) have "timeouts w = Map.empty \<and> frames w = Map.empty"
    by (simp add: tracked_def)
  with False c show ?thesis
    by (simp add: start_def Let_def tracked_setTimeoutTick)
qed

lemma tracked_fireTimeout:
  assumes "tracked w"
  shows "tracked (fireTimeout h now w)"
proof (cases "timeouts w h")
  case None
  with assms show ?thesis by (simp add: fireTimeout_def)
next
  case (Some ci)
  obtain c i where ci: "ci = (c, i)" by (cases ci) auto
  from assms Some have run: "isRunning w"
    by (auto simp add: tracked_def)
  from assms Some ci have pl: "isPlain c"
    by (auto simp add: tracked_def)
  from assms Some have tid: "timerId w = Some h"
    by (cases "timerId w") (auto simp add: tracked_def)
  from assms tid Some have others: "\<forall>k. k \<noteq> h \<longrightarrow> timeouts w k = None \<and> frames w k = None"
    and here: "frames w h = None"
    by (simp_all add: tracked_def)
  have "frames w k = None" for k
    using others here by (cases "k = h") simp_all
  moreover have "((timeouts w)(h := None)) k = None" for k
    using others by (cases "k = h") simp_all
  ultimately have e: "(timeouts w)(h := None) = Map.empty \<and> frames w = Map.empty"
    by (simp add: fun_eq_iff)
  have "tracked (tick c i now (w\<lparr>timeouts := (timeouts w)(h := None)\<rparr>))"
    using e run pl by (intro tracked_tick) simp_all
  with Some ci show ?thesis by (simp add: fireTimeout_def)
qed

lemma tracked_fireFrame:
  assumes "tracked w"
  shows "tracked (fireFrame h now w)"
proof (cases "frames w h")
  case None
  with assms show ?thesis by (simp add: fireFrame_def)
next
  case (Some ci)
  obtain c i where ci: "ci = (c, i)" by (cases ci) auto
  from assms Some have run: "isRunning w"
    by (auto simp add: tracked_def)
  from assms Some ci have pl: "isPlain c"
    by (auto simp add: tracked_def)
  from assms Some have tid: "timerId w = Some h"
    by (cases "timerId w") (auto simp add: tracked_def)
  from assms tid Some have others: "\<forall>k. k \<noteq> h \<longrightarrow> timeouts w k = None \<and> frames w k = None"
    and here: "timeouts w h = None"
    by (simp_all add: tracked_def)
  have "timeouts w k = None" for k
    using others here by (cases "k = h") simp_all
  moreover have "((frames w)(h := None)) k = None" for k
    using others by (cases "k = h") simp_all
  ultimately have e: "timeouts w = Map.empty \<and> (frames w)(h := None) = Map.empty"
    by (simp add: fun_eq_iff)
  have "tracked (tick c i now (w\<lparr>frames := (frames w)(h := None)\<rparr>))"
    using e run pl by (intro tracked_tick) simp_all
  with Some ci run show ?thesis by (simp add: fireFrame_def Let_def)
qed

lemma tracked_step: "tracked w \<Longrightarrow> plainEvent e \<Longrightarrow> tracked (step e w)"
proof (cases e)
  case (Start c i n1 n2)
  assume "tracked w" and "plainEvent e"
  with Start show ?thesis by (cases c) (simp_all add: tracked_start)
qed (simp_all add: tracked_stop tracked_fireTimeout tracked_fireFrame)

lemma tracked_run: "tracked w \<Longrightarrow> list_all plainEvent es \<Longrightarrow> tracked (run es w)"
  by (induction es arbitrary: w) (simp_all add: tracked_step)

lemma runningExample_eval:
  "isRunning runningExample \<and> calls runningExample = [Plain 0, Plain 0]
   \<and> timerId runningExample = Some 2 \<and> timeouts runningExample 2 = Some (Plain 0, 100)"
  by (simp add: runningExample_def newScheduler_def start_def setTimeoutTick_def
      fireTimeout_def tick_def calculateNextTick_def createTimingState_def Let_def)

lemma behindExample_eval:
  "isRunning behindExample \<and> calls behindExample = [Plain 0, Plain 0]
   \<and> timerId behindExample = Some 1 \<and> frames behindExample 1 = Some (Plain 0, 100)"
  by (simp add: behindExample_def newScheduler_def start_def setTimeoutTick_def
      requestFrameTick_def fireTimeout_def tick_def calculateNextTick_def
      createTimingState_def Let_def)

text \<open>
  What the scheduler does guarantee. \<^verbatim>\<open>start\<close> on a running scheduler changes
  nothing: no callback call, no new handle. \<^verbatim>\<open>stop\<close> always returns, a second
  \<^verbatim>\<open>stop\<close> changes nothing more, and \<^verbatim>\<open>stop\<close> on a scheduler that was never
  started leaves it as constructed. From a state that is not running, whatever handles
  the window fires and however often \<^verbatim>\<open>stop\<close> is called again, the callback is not
  invoked as long as the client does not call \<^verbatim>\<open>start\<close>. And when no callback calls
  \<^verbatim>\<open>stop\<close> itself, a \<^verbatim>\<open>stop\<close> after any history leaves no handle pending,
  neither a timeout nor an animation frame.
\<close>

lemma scheduler_lifecycle:
  "(isRunning w \<longrightarrow> start callback intervalMs now1 now2 w = w)
   \<and> stop (stop w) = stop w
   \<and> stop (newScheduler now1 now2 t f) = newScheduler now1 now2 t f
   \<and> \<not> isRunning (stop w)
   \<and> calls (stop w) = calls w
   \<and> (list_all (\<lambda>e. \<not> isStart e) es \<longrightarrow>
        calls (run es (stop w)) = calls w \<and> \<not> isRunning (run es (stop w)))
   \<and> (\<not> isRunning w \<and> list_all (\<lambda>e. \<not> isStart e) es \<longrightarrow> calls (run es w) = calls w)
   \<and> (list_all plainEvent es \<longrightarrow>
        timeouts (stop (run es (newScheduler now1 now2 t f))) = Map.empty
      \<and> frames (stop (run es (newScheduler now1 now2 t f))) = Map.empty)"
proof -
  have a: "start callback intervalMs now1 now2 w = w" if "isRunning w"
    using that by (simp add: start_def)
  have b: "stop (newScheduler now1 now2 t f) = newScheduler now1 now2 t f"
    by (simp add: stop_def newScheduler_def)
  have c: "calls (run es (stop w)) = calls w \<and> \<not> isRunning (run es (stop w))"
    if "list_all (\<lambda>e. \<not> isStart e) es"
    using run_stopped [OF stop_not_running that, of w] by (simp add: stop_calls)
  have c': "calls (run es w) = calls w"
    if "\<not> isRunning w \<and> list_all (\<lambda>e. \<not> isStart e) es"
    using that run_stopped [of w es] by simp
  have d: "timeouts (stop (run es (newScheduler now1 now2 t f))) = Map.empty
      \<and> frames (stop (run es (newScheduler now1 now2 t f))) = Map.empty"
    if "list_all plainEvent es"
    using that by (intro tracked_stop_clear tracked_run tracked_new)
  from a b c c' d show ?thesis
    by (simp add: stop_idem stop_not_running stop_calls)
qed

lemma scheduler_lifecycle_example:
  "start (Plain 7) 50 300 300 runningExample = runningExample
   \<and> calls (run [TimeoutFires 2 240, FrameFires 1 250, Stop, TimeoutFires 2 400]
        (stop runningExample)) = [Plain 0, Plain 0]
   \<and> calls (run [FrameFires 1 260, TimeoutFires 1 270] (stop behindExample)) = [Plain 0, Plain 0]
   \<and> timeouts (stop runningExample) = Map.empty
   \<and> frames (stop behindExample) = Map.empty
   \<and> stop (stop runningExample) = stop runningExample"
proof -
  have r: "isRunning runningExample" and cr: "calls runningExample = [Plain 0, Plain 0]"
    and cb: "calls behindExample = [Plain 0, Plain 0]"
    using runningExample_eval behindExample_eval by simp_all
  have n1: "list_all (\<lambda>e. \<not> isStart e) [TimeoutFires 2 240, FrameFires 1 250, Stop, TimeoutFires 2 400]"
    and n2: "list_all (\<lambda>e. \<not> isStart e) [FrameFires 1 260, TimeoutFires 1 270]"
    and p1: "list_all plainEvent [Start (Plain 0) 100 0 0, TimeoutFires 1 130]"
    and p2: "list_all plainEvent [Start (Plain 0) 100 0 0, TimeoutFires 1 250]"
    by simp_all
  have 1: "start (Plain 7) 50 300 300 runningExample = runningExample
      \<and> stop (stop runningExample) = stop runningExample
      \<and> calls (run [TimeoutFires 2 240, FrameFires 1 250, Stop, TimeoutFires 2 400]
           (stop runningExample)) = calls runningExample"
    using r n1 scheduler_lifecycle [of runningExample "Plain 7" 50 300 300 1 1
        "[TimeoutFires 2 240, FrameFires 1 250, Stop, TimeoutFires 2 400]"]
    by blast
  have 2: "calls (run [FrameFires 1 260, TimeoutFires 1 270] (stop behindExample))
      = calls behindExample"
    using n2 scheduler_lifecycle [of behindExample "Plain 7" 50 300 300 1 1
        "[FrameFires 1 260, TimeoutFires 1 270]"]
    by blast
  have 3: "timeouts (stop runningExample) = Map.empty"
    unfolding runningExample_def
    using p1 scheduler_lifecycle [of runningExample "Plain 7" 50 0 0 1 1
        "[Start (Plain 0) 100 0 0, TimeoutFires 1 130]"]
    by blast
  have 4: "frames (stop behindExample) = Map.empty"
    unfolding behindExample_def
    using p2 scheduler_lifecycle [of behindExample "Plain 7" 50 0 0 1 1
        "[Start (Plain 0) 100 0 0, TimeoutFires 1 250]"]
    by blast
  from 1 2 3 4 cr cb show ?thesis
    by simp
qed

text \<open>
  C3 fails on the code when the callback itself calls \<^verbatim>\<open>stop()\<close>. \<^verbatim>\<open>start\<close> and
  \<^verbatim>\<open>tick\<close> arm the next timeout after \<^verbatim>\<open>callback()\<close> without reading
  \<^verbatim>\<open>isRunning\<close> again. In \<open>stoppedInCallback\<close> the call of \<^verbatim>\<open>stop()\<close> has returned
  and the scheduler is not running, yet the timeout with handle 1 is pending. The next
  \<^verbatim>\<open>start\<close> does not clear it, so \<open>restartedAfterStop\<close> holds two pending timeouts,
  two timer chains on one scheduler; and when handle 1 fires, the callback of the first
  \<^verbatim>\<open>start\<close> is invoked again, after its \<^verbatim>\<open>stop()\<close> had returned.
\<close>

theorem scheduler_stop_in_callback_revived:
  "\<not> isRunning stoppedInCallback
   \<and> calls stoppedInCallback = [Stopping 0]
   \<and> timeouts stoppedInCallback 1 = Some (Stopping 0, 100)
   \<and> isRunning restartedAfterStop
   \<and> timeouts restartedAfterStop 1 = Some (Stopping 0, 100)
   \<and> timeouts restartedAfterStop 2 = Some (Plain 1, 100)
   \<and> calls (run [TimeoutFires 1 110] restartedAfterStop) = [Stopping 0, Plain 1, Stopping 0]"
  by (simp add: stoppedInCallback_def restartedAfterStop_def newScheduler_def start_def stop_def
      setTimeoutTick_def fireTimeout_def tick_def calculateNextTick_def createTimingState_def
      Let_def)

end
